theory Spec2Isabelle
  imports Main "HOL-Library.Sublist"
begin

section \<open>JavaScript values\<close>

text \<open>
  The values that flow through \<^verbatim>\<open>src/impression.js\<close>: viewer parameters, message
  responses, the parsed JSON of the ad server and rejection reasons. \<open>JResponse\<close> is the
  object that \<^verbatim>\<open>fetchJson\<close> resolves with (the only value exposing \<^verbatim>\<open>.json()\<close>);
  \<open>JError\<close> is an \<^verbatim>\<open>Error\<close> object with its message.
\<close>

datatype jsval =
    JUndefined
  | JNull
  | JBool bool
  | JNum int
  | JStr string
  | JArr "jsval list"
  | JObj "(string \<times> jsval) list"
  | JResponse
  | JError string

text \<open>JavaScript truthiness, as used by \<^verbatim>\<open>!x\<close>, \<^verbatim>\<open>x || y\<close> and \<^verbatim>\<open>if (x)\<close>.\<close>

fun truthy :: "jsval \<Rightarrow> bool" where
  "truthy JUndefined = False"
| "truthy JNull = False"
| "truthy (JBool b) = b"
| "truthy (JNum n) = (n \<noteq> 0)"
| "truthy (JStr s) = (s \<noteq> [])"
| "truthy (JArr xs) = True"
| "truthy (JObj kvs) = True"
| "truthy JResponse = True"
| "truthy (JError m) = True"

text \<open>\<^verbatim>\<open>typeof v == 'object'\<close> (which holds of \<^verbatim>\<open>null\<close> too).\<close>

fun typeof_object :: "jsval \<Rightarrow> bool" where
  "typeof_object JNull = True"
| "typeof_object (JArr xs) = True"
| "typeof_object (JObj kvs) = True"
| "typeof_object JResponse = True"
| "typeof_object (JError m) = True"
| "typeof_object v = False"

text \<open>\<^verbatim>\<open>a || b\<close>.\<close>

definition js_or :: "jsval \<Rightarrow> jsval \<Rightarrow> jsval" where
  "js_or a b = (if truthy a then a else b)"

definition TypeError :: jsval where
  "TypeError = JError ''TypeError''"

definition AssertionError :: jsval where
  "AssertionError = JError ''Assertion failed''"

text \<open>
  \<^verbatim>\<open>v[key]\<close>: reading a property of \<^verbatim>\<open>undefined\<close> or \<^verbatim>\<open>null\<close> throws a TypeError
  (\<open>Inl\<close>); an object yields the stored value or \<^verbatim>\<open>undefined\<close>; the other values
  have none of the keys the program reads.
\<close>

fun get_prop :: "jsval \<Rightarrow> string \<Rightarrow> jsval + jsval" where
  "get_prop JUndefined k = Inl TypeError"
| "get_prop JNull k = Inl TypeError"
| "get_prop (JObj kvs) k = Inr (case map_of kvs k of None \<Rightarrow> JUndefined | Some v \<Rightarrow> v)"
| "get_prop v k = Inr JUndefined"

text \<open>\<^verbatim>\<open>v[i]\<close> for a numeric index.\<close>

fun get_index :: "jsval \<Rightarrow> nat \<Rightarrow> jsval + jsval" where
  "get_index JUndefined i = Inl TypeError"
| "get_index JNull i = Inl TypeError"
| "get_index (JArr xs) i = Inr (if i < length xs then xs ! i else JUndefined)"
| "get_index v i = Inr JUndefined"

text \<open>\<^verbatim>\<open>s.indexOf(t)\<close>: the position of the first occurrence of \<open>t\<close> in \<open>s\<close>, or \<open>-1\<close>.\<close>

fun indexOf_from :: "string \<Rightarrow> string \<Rightarrow> nat \<Rightarrow> int" where
  "indexOf_from [] t i = (if t = [] then int i else - 1)"
| "indexOf_from (c # cs) t i = (if prefix t (c # cs) then int i else indexOf_from cs t (Suc i))"

definition indexOf :: "string \<Rightarrow> string \<Rightarrow> int" where
  "indexOf s t = indexOf_from s t 0"

section \<open>Promises, reactions and the microtask queue\<close>

text \<open>
  Every promise-creating expression of the module runs at most once in a tracking
  session, so a promise is named by the expression that creates it.
\<close>

datatype pid =
    P_promise              \<comment> \<open>\<^verbatim>\<open>promise\<close>, whose resolve function is \<^verbatim>\<open>resolveImpression\<close>\<close>
  | P_timeout              \<comment> \<open>result of \<^verbatim>\<open>timeoutPromise(TIMEOUT_VALUE, promise, ...)\<close>\<close>
  | P_trackImpression      \<comment> \<open>result of \<^verbatim>\<open>.catch(...)\<close>, stored in \<^verbatim>\<open>trackImpressionPromise\<close>\<close>
  | P_doNotTrack           \<comment> \<open>\<^verbatim>\<open>Promise.resolve()\<close> of \<^verbatim>\<open>doNotTrackImpression\<close>\<close>
  | P_isTrustedViewer      \<comment> \<open>\<^verbatim>\<open>viewer.isTrustedViewer()\<close>\<close>
  | P_isTrustedReferrer    \<comment> \<open>\<^verbatim>\<open>viewer.isTrustedReferrer()\<close>\<close>
  | P_trustAll             \<comment> \<open>\<^verbatim>\<open>Promise.all\<close> of the two trust promises\<close>
  | P_trustThen            \<comment> \<open>its \<^verbatim>\<open>.then(results => ...)\<close>\<close>
  | P_getReplaceUrl        \<comment> \<open>\<^verbatim>\<open>viewer.sendMessageAwaitResponse('getReplaceUrl', ...)\<close>\<close>
  | P_replaceUrlPromise    \<comment> \<open>what \<^verbatim>\<open>handleReplaceUrl\<close> returns\<close>
  | P_whenFirstVisible     \<comment> \<open>\<^verbatim>\<open>viewer.whenFirstVisible()\<close>\<close>
  | P_visibleThen          \<comment> \<open>its \<^verbatim>\<open>.then(() => invoke(...))\<close>\<close>
  | P_fetchJson            \<comment> \<open>\<^verbatim>\<open>Services.xhrFor(win).fetchJson(...)\<close>\<close>
  | P_json                 \<comment> \<open>\<^verbatim>\<open>res.json()\<close>\<close>
  | P_invoke               \<comment> \<open>what \<^verbatim>\<open>invoke\<close> returns\<close>
  | P_clickUrlPromise      \<comment> \<open>what \<^verbatim>\<open>handleClickUrl\<close> returns\<close>
  | P_join                 \<comment> \<open>\<^verbatim>\<open>Promise.all([replaceUrlPromise, clickUrlPromise])\<close>\<close>
  | P_joinThen             \<comment> \<open>its \<^verbatim>\<open>.then(..., () => {})\<close>\<close>

datatype outcome = Fulfils jsval | Rejects jsval

text \<open>The closures of the module, each named after what it does.\<close>

datatype callback =
    WarnTimeout            \<comment> \<open>\<^verbatim>\<open>error => { dev().warn('IMPRESSION', error); }\<close>\<close>
  | TrustResults           \<comment> \<open>\<^verbatim>\<open>results => { ... }\<close> of \<^verbatim>\<open>maybeTrackImpression\<close>\<close>
  | JoinResolve            \<comment> \<open>\<^verbatim>\<open>() => { resolveImpression(); }\<close>\<close>
  | JoinSwallow            \<comment> \<open>\<^verbatim>\<open>() => {}\<close>\<close>
  | ReplaceUrlResponse     \<comment> \<open>\<^verbatim>\<open>response => { ... }\<close> of \<^verbatim>\<open>handleReplaceUrl\<close>\<close>
  | ReplaceUrlError        \<comment> \<open>\<^verbatim>\<open>err => { dev().warn(...); }\<close> of \<^verbatim>\<open>handleReplaceUrl\<close>\<close>
  | VisibleInvoke string   \<comment> \<open>\<^verbatim>\<open>() => invoke(win, dev().assertString(clickUrl))\<close>\<close>
  | ClickResponse          \<comment> \<open>\<^verbatim>\<open>response => { applyResponse(win, response); }\<close>\<close>
  | ResJson                \<comment> \<open>\<^verbatim>\<open>res => res.json()\<close>\<close>

text \<open>
  A reaction is what is attached to a promise: the two handlers of a \<^verbatim>\<open>.then\<close> with
  the promise it derives, the resolving functions of a promise that follows another one,
  or the element function of a \<^verbatim>\<open>Promise.all\<close>.
\<close>

datatype reaction =
    Then "callback option" "callback option" pid
  | Adopt pid
  | AllElement pid nat

datatype job =
    ReactionJob reaction outcome
  | ThenableJob pid pid

text \<open>How a callback completes: with a value, with a promise, or by throwing.\<close>

datatype result = Return jsval | ReturnPromise pid | Throw jsval

section \<open>The window, the viewer and the observable effects\<close>

datatype effect =
    DevWarn "jsval list"
  | UserWarn "jsval list"
  | IsTrustedViewer
  | IsTrustedReferrer
  | ViewerReplaceUrl jsval
  | SendMessageAwaitResponse string jsval
  | WhenFirstVisible
  | SetLocationHash string
  | FetchJson string
  | ResponseJson
  | ImageSrc jsval
  | HistoryReplaceState jsval string string

record location =
  href :: string
  hash :: string

text \<open>
  What the module reads from its collaborators and never changes: the viewer's
  parameters and capabilities, the experiment flags, the mode flags, and the helpers of
  \<^verbatim>\<open>./url\<close>, which are parameters of the model. The three \<open>location\<close> functions say what
  the browser or the viewer does to the address when the module calls them.
\<close>

record env =
  getParam :: "string \<Rightarrow> string option"
  hasCapability :: "string \<Rightarrow> bool"
  isExperimentOn :: "string \<Rightarrow> bool"
  localDev :: bool
  test :: bool
  has_replaceState :: bool
  isProxyOrigin :: "jsval \<Rightarrow> bool"
  parseUrl_search :: "jsval \<Rightarrow> string"
  parseQueryString :: "string \<Rightarrow> (string \<times> string) list"
  addParamsToUrl :: "string \<Rightarrow> (string \<times> string) list \<Rightarrow> string"
  href_after_hash :: "string \<Rightarrow> string \<Rightarrow> string"
  location_after_replaceUrl :: "jsval \<Rightarrow> location \<Rightarrow> location"
  location_after_replaceState :: "string \<Rightarrow> location \<Rightarrow> location"

record world =
  trackImpressionPromise :: "pid option"
  state :: "pid \<Rightarrow> outcome option"
  reactions :: "(pid \<times> reaction) list"
  all_values :: "pid \<Rightarrow> jsval option list"
  microtasks :: "job list"
  timers :: "(nat \<times> pid \<times> string) list"
  outstanding :: "pid list"
  win_location :: location
  log :: "effect list"

definition init :: "location \<Rightarrow> world" where
  "init loc = \<lparr> trackImpressionPromise = None, state = (\<lambda>p. None), reactions = [],
     all_values = (\<lambda>p. []), microtasks = [], timers = [], outstanding = [],
     win_location = loc, log = [] \<rparr>"

definition perform :: "effect \<Rightarrow> world \<Rightarrow> world" where
  "perform x w = w\<lparr>log := log w @ [x]\<rparr>"

definition enqueue :: "job \<Rightarrow> world \<Rightarrow> world" where
  "enqueue j w = w\<lparr>microtasks := microtasks w @ [j]\<rparr>"

text \<open>
  Settling a pending promise queues a job for each reaction attached to it, in the order
  of attachment; settling a settled promise does nothing.
\<close>

definition settle :: "pid \<Rightarrow> outcome \<Rightarrow> world \<Rightarrow> world" where
  "settle p out w =
     (if state w p \<noteq> None then w
      else w\<lparr>state := (state w)(p \<mapsto> out),
             reactions := filter (\<lambda>(q, r). q \<noteq> p) (reactions w),
             microtasks := microtasks w @
               map (\<lambda>(q, r). ReactionJob r out) (filter (\<lambda>(q, r). q = p) (reactions w))\<rparr>)"

text \<open>Attaching a reaction: kept while the promise is pending, queued at once otherwise.\<close>

definition subscribe :: "pid \<Rightarrow> reaction \<Rightarrow> world \<Rightarrow> world" where
  "subscribe p r w =
     (case state w p of
        None \<Rightarrow> w\<lparr>reactions := reactions w @ [(p, r)]\<rparr>
      | Some out \<Rightarrow> enqueue (ReactionJob r out) w)"

text \<open>\<^verbatim>\<open>p.then(onFulfilled, onRejected)\<close>, deriving the promise \<open>d\<close>.\<close>

definition promise_then :: "pid \<Rightarrow> callback option \<Rightarrow> callback option \<Rightarrow> pid \<Rightarrow> world \<Rightarrow> pid \<times> world" where
  "promise_then p onFulfilled onRejected d w = (d, subscribe p (Then onFulfilled onRejected d) w)"

text \<open>\<^verbatim>\<open>Promise.resolve()\<close>.\<close>

definition promise_resolve :: "pid \<Rightarrow> world \<Rightarrow> pid \<times> world" where
  "promise_resolve d w = (d, settle d (Fulfils JUndefined) w)"

text \<open>\<^verbatim>\<open>Promise.all(ps)\<close>, deriving the promise \<open>d\<close>.\<close>

definition promise_all :: "pid list \<Rightarrow> pid \<Rightarrow> world \<Rightarrow> pid \<times> world" where
  "promise_all ps d w =
     (let w = w\<lparr>all_values := (all_values w)(d := replicate (length ps) None)\<rparr>
      in if ps = [] then (d, settle d (Fulfils (JArr [])) w)
         else (d, fold (\<lambda>(i, p). subscribe p (AllElement d i)) (enumerate 0 ps) w))"

text \<open>Resolving the promise \<open>d\<close> with the completion of a callback.\<close>

fun resolve_with :: "pid \<Rightarrow> result \<Rightarrow> world \<Rightarrow> world" where
  "resolve_with d (Return v) w = settle d (Fulfils v) w"
| "resolve_with d (Throw x) w = settle d (Rejects x) w"
| "resolve_with d (ReturnPromise q) w = (if state w d \<noteq> None then w else enqueue (ThenableJob q d) w)"

text \<open>A call into the viewer or the network that returns a promise settled from outside.\<close>

definition external_call :: "effect \<Rightarrow> pid \<Rightarrow> world \<Rightarrow> pid \<times> world" where
  "external_call x p w = (p, (perform x w)\<lparr>outstanding := outstanding (perform x w) @ [p]\<rparr>)"

text \<open>
  Modelled from the spec: \<^verbatim>\<open>Services.timerFor(win).timeoutPromise(ms, promise, message)\<close>
  of \<^verbatim>\<open>./service/timer-impl\<close>, "a promise that rejects with the given message if the
  inner promise has not settled within \<open>ms\<close>": the result \<open>d\<close> follows the inner promise,
  and a timer is armed that rejects \<open>d\<close> when it fires first.
\<close>

definition timeoutPromise :: "nat \<Rightarrow> pid \<Rightarrow> string \<Rightarrow> pid \<Rightarrow> world \<Rightarrow> pid \<times> world" where
  "timeoutPromise ms racePromise message d w =
     (d, subscribe racePromise (Adopt d) (w\<lparr>timers := timers w @ [(ms, d, message)]\<rparr>))"

text \<open>
  Modelled from the spec: \<^verbatim>\<open>dev().assert(v)\<close> of \<^verbatim>\<open>./log\<close>, which "fails fatally
  (assertion)" on a missing value and returns the value otherwise.
\<close>

definition dev_assert :: "'a option \<Rightarrow> jsval + 'a" where
  "dev_assert v = (case v of None \<Rightarrow> Inl AssertionError | Some x \<Rightarrow> Inr x)"

section \<open>The module \<^verbatim>\<open>src/impression.js\<close>\<close>

definition TIMEOUT_VALUE :: nat where
  "TIMEOUT_VALUE = 8000"

definition getTrackImpressionPromise :: "world \<Rightarrow> jsval + pid" where
  "getTrackImpressionPromise w = dev_assert (trackImpressionPromise w)"

definition resetTrackImpressionPromiseForTesting :: "world \<Rightarrow> world" where
  "resetTrackImpressionPromiseForTesting w = w\<lparr>trackImpressionPromise := None\<rparr>"

definition doNotTrackImpression :: "world \<Rightarrow> world" where
  "doNotTrackImpression w =
     (let (p, w) = promise_resolve P_doNotTrack w in w\<lparr>trackImpressionPromise := Some p\<rparr>)"

definition resolveImpression :: "world \<Rightarrow> world" where
  "resolveImpression w = settle P_promise (Fulfils JUndefined) w"

definition viewer_replaceUrl :: "env \<Rightarrow> jsval \<Rightarrow> world \<Rightarrow> world" where
  "viewer_replaceUrl e v w =
     (perform (ViewerReplaceUrl v) w)\<lparr>win_location := location_after_replaceUrl e v (win_location w)\<rparr>"

definition set_location_hash :: "env \<Rightarrow> string \<Rightarrow> world \<Rightarrow> world" where
  "set_location_hash e h w =
     (perform (SetLocationHash h) w)
       \<lparr>win_location := \<lparr>href = href_after_hash e h (href (win_location w)), hash = h\<rparr>\<rparr>"

definition history_replaceState :: "env \<Rightarrow> jsval \<Rightarrow> string \<Rightarrow> string \<Rightarrow> world \<Rightarrow> world" where
  "history_replaceState e st title url w =
     (perform (HistoryReplaceState st title url) w)
       \<lparr>win_location := location_after_replaceState e url (win_location w)\<rparr>"

text \<open>A parameter of the viewer as a JavaScript value (\<^verbatim>\<open>string|undefined\<close>).\<close>

definition param_val :: "string option \<Rightarrow> jsval" where
  "param_val p = (case p of None \<Rightarrow> JUndefined | Some s \<Rightarrow> JStr s)"

definition handleReplaceUrl :: "env \<Rightarrow> world \<Rightarrow> pid \<times> world" where
  "handleReplaceUrl e w =
     (if \<not> truthy (param_val (getParam e ''replaceUrl'')) then
        promise_resolve P_replaceUrlPromise w
      else if \<not> hasCapability e ''replaceUrl'' then
        promise_resolve P_replaceUrlPromise
          (viewer_replaceUrl e (js_or (param_val (getParam e ''replaceUrl'')) JNull) w)
      else
        (let (m, w) = external_call (SendMessageAwaitResponse ''getReplaceUrl'' JUndefined)
                        P_getReplaceUrl w
         in promise_then m (Some ReplaceUrlResponse) (Some ReplaceUrlError) P_replaceUrlPromise w))"

definition handleClickUrl :: "env \<Rightarrow> world \<Rightarrow> pid \<times> world" where
  "handleClickUrl e w =
     (case getParam e ''click'' of
        None \<Rightarrow> promise_resolve P_clickUrlPromise w
      | Some clickUrl \<Rightarrow>
          if \<not> truthy (JStr clickUrl) then promise_resolve P_clickUrlPromise w
          else if indexOf clickUrl ''https://'' \<noteq> 0 then
            promise_resolve P_clickUrlPromise
              (perform (UserWarn [JStr ''IMPRESSION'',
                 JStr ''click fragment param should start with https://. Found '',
                 JStr clickUrl]) w)
          else
            (let w = (if truthy (JStr (hash (win_location w))) then set_location_hash e '''' w
                      else w);
                 (v, w) = external_call WhenFirstVisible P_whenFirstVisible w;
                 (t, w) = promise_then v (Some (VisibleInvoke clickUrl)) None P_visibleThen w
             in promise_then t (Some ClickResponse) None P_clickUrlPromise w))"

definition invoke :: "env \<Rightarrow> string \<Rightarrow> world \<Rightarrow> pid \<times> world" where
  "invoke e clickUrl w =
     (let clickUrl = (if localDev e \<and> \<not> test e
                      then ''http://localhost:8000/impression-proxy?url='' @ clickUrl
                      else clickUrl);
          (f, w) = external_call (FetchJson clickUrl) P_fetchJson w
      in promise_then f (Some ResJson) None P_invoke w)"

text \<open>\<open>Inl\<close> is the exception thrown; nothing has been done when it is thrown.\<close>

definition applyResponse :: "env \<Rightarrow> jsval \<Rightarrow> world \<Rightarrow> jsval + world" where
  "applyResponse e response w =
     (case get_prop response ''location'' of Inl x \<Rightarrow> Inl x | Inr adLocation \<Rightarrow>
      case get_prop response ''tracking_url'' of Inl x \<Rightarrow> Inl x | Inr adTracking \<Rightarrow>
      let trackUrl = js_or adTracking adLocation;
          w = (if truthy trackUrl \<and> \<not> isProxyOrigin e trackUrl
               then perform (ImageSrc trackUrl) w else w)
      in if truthy adLocation then
           if \<not> has_replaceState e then Inr w
           else
             (let currentHref = href (win_location w);
                  search = parseUrl_search e adLocation;
                  params = parseQueryString e search;
                  newHref = addParamsToUrl e currentHref params
              in Inr (history_replaceState e JNull '''' newHref w))
         else Inr w)"

definition trustResults :: "env \<Rightarrow> jsval \<Rightarrow> world \<Rightarrow> result \<times> world" where
  "trustResults e results w =
     (case get_index results 0 of Inl x \<Rightarrow> (Throw x, w) | Inr isTrustedViewer \<Rightarrow>
      case get_index results 1 of Inl x \<Rightarrow> (Throw x, w) | Inr isTrustedReferrer \<Rightarrow>
      if \<not> truthy isTrustedViewer \<and> \<not> truthy isTrustedReferrer \<and> \<not> isExperimentOn e ''alp''
      then (Return JUndefined, resolveImpression w)
      else
        (let (replaceUrlPromise, w) = handleReplaceUrl e w;
             (clickUrlPromise, w) = handleClickUrl e w;
             (j, w) = promise_all [replaceUrlPromise, clickUrlPromise] P_join w;
             (t, w) = promise_then j (Some JoinResolve) (Some JoinSwallow) P_joinThen w
         in (Return JUndefined, w)))"

text \<open>Calling a closure of the module with its argument.\<close>

fun call :: "env \<Rightarrow> callback \<Rightarrow> jsval \<Rightarrow> world \<Rightarrow> result \<times> world" where
  "call e WarnTimeout error w = (Return JUndefined, perform (DevWarn [JStr ''IMPRESSION'', error]) w)"
| "call e TrustResults results w = trustResults e results w"
| "call e JoinResolve v w = (Return JUndefined, resolveImpression w)"
| "call e JoinSwallow v w = (Return JUndefined, w)"
| "call e ReplaceUrlResponse response w =
     (if \<not> truthy response \<or> \<not> typeof_object response then
        (Return JUndefined,
         perform (DevWarn [JStr ''IMPRESSION'', JStr ''get invalid replaceUrl response'']) w)
      else
        (case get_prop response ''replaceUrl'' of
           Inl x \<Rightarrow> (Throw x, w)
         | Inr u \<Rightarrow> (Return JUndefined, viewer_replaceUrl e (js_or u JNull) w)))"
| "call e ReplaceUrlError err w =
     (Return JUndefined,
      perform (DevWarn [JStr ''IMPRESSION'', JStr ''Error request replaceUrl from viewer'', err]) w)"
| "call e (VisibleInvoke clickUrl) v w = (let (p, w) = invoke e clickUrl w in (ReturnPromise p, w))"
| "call e ClickResponse response w =
     (case applyResponse e response w of
        Inl x \<Rightarrow> (Throw x, w)
      | Inr w' \<Rightarrow> (Return JUndefined, w'))"
| "call e ResJson res w =
     (case res of
        JResponse \<Rightarrow> (let (p, w) = external_call ResponseJson P_json w in (ReturnPromise p, w))
      | _ \<Rightarrow> (Throw TypeError, w))"

definition maybeTrackImpression :: "env \<Rightarrow> world \<Rightarrow> world" where
  "maybeTrackImpression e w =
     (let promise = P_promise;
          (t, w) = timeoutPromise TIMEOUT_VALUE promise ''TrackImpressionPromise timeout''
                     P_timeout w;
          (c, w) = promise_then t None (Some WarnTimeout) P_trackImpression w;
          w = w\<lparr>trackImpressionPromise := Some c\<rparr>;
          (isTrustedViewerPromise, w) = external_call IsTrustedViewer P_isTrustedViewer w;
          (isTrustedReferrerPromise, w) = external_call IsTrustedReferrer P_isTrustedReferrer w;
          (a, w) = promise_all [isTrustedViewerPromise, isTrustedReferrerPromise] P_trustAll w;
          (r, w) = promise_then a (Some TrustResults) None P_trustThen w
      in w)"

section \<open>Running jobs and delivering events\<close>

fun run_reaction :: "env \<Rightarrow> reaction \<Rightarrow> outcome \<Rightarrow> world \<Rightarrow> world" where
  "run_reaction e (Then onFulfilled onRejected d) (Fulfils v) w =
     (case onFulfilled of
        None \<Rightarrow> settle d (Fulfils v) w
      | Some f \<Rightarrow> (let (r, w) = call e f v w in resolve_with d r w))"
| "run_reaction e (Then onFulfilled onRejected d) (Rejects x) w =
     (case onRejected of
        None \<Rightarrow> settle d (Rejects x) w
      | Some f \<Rightarrow> (let (r, w) = call e f x w in resolve_with d r w))"
| "run_reaction e (Adopt d) out w = settle d out w"
| "run_reaction e (AllElement d i) (Fulfils v) w =
     (let vs = (all_values w d)[i := Some v];
          w = w\<lparr>all_values := (all_values w)(d := vs)\<rparr>
      in case those vs of None \<Rightarrow> w | Some xs \<Rightarrow> settle d (Fulfils (JArr xs)) w)"
| "run_reaction e (AllElement d i) (Rejects x) w = settle d (Rejects x) w"

fun run_job :: "env \<Rightarrow> job \<Rightarrow> world \<Rightarrow> world" where
  "run_job e (ReactionJob r out) w = run_reaction e r out w"
| "run_job e (ThenableJob q d) w = subscribe q (Adopt d) w"


subsection \<open>The weight of the pending work\<close>

text \<open>
  A callback weighs what it may attach or queue when it runs; a reaction weighs its
  handlers and the job it may queue to follow a returned promise.
\<close>

fun callback_weight :: "callback \<Rightarrow> nat" where
  "callback_weight TrustResults = 20"
| "callback_weight (VisibleInvoke u) = 3"
| "callback_weight c = 0"

fun reaction_weight :: "reaction \<Rightarrow> nat" where
  "reaction_weight (Then f g d) =
     3 + (case f of None \<Rightarrow> 0 | Some c \<Rightarrow> callback_weight c)
       + (case g of None \<Rightarrow> 0 | Some c \<Rightarrow> callback_weight c)"
| "reaction_weight (Adopt d) = 1"
| "reaction_weight (AllElement d i) = 1"

fun job_weight :: "job \<Rightarrow> nat" where
  "job_weight (ReactionJob r out) = reaction_weight r"
| "job_weight (ThenableJob q d) = 2"

definition potential :: "world \<Rightarrow> nat" where
  "potential w = sum_list (map job_weight (microtasks w))
               + sum_list (map (\<lambda>(p, r). reaction_weight r) (reactions w))"

lemma sum_list_split_filter:
  "sum_list (map f (filter P xs)) + sum_list (map f (filter (\<lambda>x. \<not> P x) xs)) = sum_list (map f xs)"
  for f :: "'a \<Rightarrow> nat"
  by (induction xs) auto

lemma potential_settle [simp]: "potential (settle p out w) = potential w"
proof -
  have a: "job_weight \<circ> (\<lambda>(q, r). ReactionJob r out) = (\<lambda>(q, r). reaction_weight r)"
    by (rule ext) auto
  have b: "(\<lambda>(q, r). q \<noteq> p) = (\<lambda>x. \<not> (case x of (q, r) \<Rightarrow> q = p))" by auto
  show ?thesis
    using sum_list_split_filter [of "\<lambda>(q, r). reaction_weight r" "\<lambda>(q, r). q = p" "reactions w"]
    by (simp add: settle_def potential_def a b)
qed

lemma potential_subscribe [simp]: "potential (subscribe p r w) = potential w + reaction_weight r"
  by (simp add: subscribe_def potential_def enqueue_def split: option.splits)

lemma potential_perform [simp]: "potential (perform x w) = potential w"
  by (simp add: perform_def potential_def)

lemma potential_enqueue [simp]: "potential (enqueue j w) = potential w + job_weight j"
  by (simp add: enqueue_def potential_def)

lemma potential_upd [simp]:
  "potential (w\<lparr>win_location := l\<rparr>) = potential w"
  "potential (w\<lparr>outstanding := os\<rparr>) = potential w"
  "potential (w\<lparr>all_values := a\<rparr>) = potential w"
  "potential (w\<lparr>trackImpressionPromise := t\<rparr>) = potential w"
  "potential (w\<lparr>timers := ts\<rparr>) = potential w"
  "potential (w\<lparr>log := l'\<rparr>) = potential w"
  by (simp_all add: potential_def)

lemma potential_handleReplaceUrl: "potential (snd (handleReplaceUrl e w)) \<le> potential w + 3"
  by (simp add: handleReplaceUrl_def promise_resolve_def viewer_replaceUrl_def external_call_def promise_then_def)

lemma potential_handleClickUrl: "potential (snd (handleClickUrl e w)) \<le> potential w + 9"
  by (simp add: handleClickUrl_def promise_resolve_def set_location_hash_def external_call_def promise_then_def Let_def split: option.splits)

lemma potential_trustResults: "potential (snd (trustResults e v w)) \<le> potential w + 17"
proof -
  obtain a w1 where h1: "handleReplaceUrl e w = (a, w1)" by (cases "handleReplaceUrl e w")
  obtain b w2 where h2: "handleClickUrl e w1 = (b, w2)" by (cases "handleClickUrl e w1")
  have "potential w1 \<le> potential w + 3" using potential_handleReplaceUrl [of e w] h1 by simp
  moreover have "potential w2 \<le> potential w1 + 9" using potential_handleClickUrl [of e w1] h2 by simp
  ultimately show ?thesis
    by (simp add: trustResults_def h1 h2 promise_all_def promise_then_def resolveImpression_def split: sum.splits)
qed

lemma potential_call: "potential (snd (call e c v w)) \<le> potential w + callback_weight c"
proof (cases c)
  case TrustResults
  then show ?thesis using potential_trustResults [of e v w] by simp
next
  case (VisibleInvoke u)
  then show ?thesis by (simp add: invoke_def external_call_def promise_then_def Let_def)
next
  case ClickResponse
  then show ?thesis
    by (auto simp: applyResponse_def history_replaceState_def Let_def split: sum.splits)
next
  case ResJson
  then show ?thesis by (cases v) (simp_all add: external_call_def)
qed (simp_all add: resolveImpression_def viewer_replaceUrl_def split: sum.splits)

lemma potential_resolve_with: "potential (resolve_with d r w) \<le> potential w + 2"
  by (cases r) simp_all

lemma potential_run_reaction: "potential (run_reaction e r out w) < potential w + reaction_weight r"
proof (cases r)
  case (Then f g d)
  show ?thesis
  proof (cases out)
    case (Fulfils v)
    show ?thesis
    proof (cases f)
      case None
      then show ?thesis using Then Fulfils by simp
    next
      case (Some c)
      obtain res w' where c: "call e c v w = (res, w')" by (cases "call e c v w")
      have "potential w' \<le> potential w + callback_weight c" using potential_call [of e c v w] c by simp
      moreover have "potential (resolve_with d res w') \<le> potential w' + 2" by (rule potential_resolve_with)
      ultimately show ?thesis using Then Fulfils Some c by simp
    qed
  next
    case (Rejects x)
    show ?thesis
    proof (cases g)
      case None
      then show ?thesis using Then Rejects by simp
    next
      case (Some c)
      obtain res w' where c: "call e c x w = (res, w')" by (cases "call e c x w")
      have "potential w' \<le> potential w + callback_weight c" using potential_call [of e c x w] c by simp
      moreover have "potential (resolve_with d res w') \<le> potential w' + 2" by (rule potential_resolve_with)
      ultimately show ?thesis using Then Rejects Some c by simp
    qed
  qed
next
  case (Adopt d)
  then show ?thesis by simp
next
  case (AllElement d i)
  then show ?thesis by (cases out) (simp_all add: Let_def split: option.splits)
qed

lemma potential_run_job: "potential (run_job e j w) < potential w + job_weight j"
  by (cases j) (simp_all add: potential_run_reaction)

text \<open>
  The microtask checkpoint: jobs run in queue order until the queue is empty. Each job
  removes more weight from the queue and the attached reactions than it adds, so the
  checkpoint ends.
\<close>

function run_microtasks :: "env \<Rightarrow> world \<Rightarrow> world" where
  "run_microtasks e w =
     (case microtasks w of
        [] \<Rightarrow> w
      | j # js \<Rightarrow> run_microtasks e (run_job e j (w\<lparr>microtasks := js\<rparr>)))"
  by pat_completeness auto
termination
proof (relation "measure (\<lambda>(e, w). potential w)")
  show "wf (measure (\<lambda>(e, w). potential w))" by simp
next
  fix e :: env and w :: world and j js
  assume q: "microtasks w = j # js"
  have "potential (w\<lparr>microtasks := js\<rparr>) + job_weight j = potential w"
    using q by (simp add: potential_def)
  then show "((e, run_job e j (w\<lparr>microtasks := js\<rparr>)), (e, w)) \<in> measure (\<lambda>(e, w). potential w)"
    using potential_run_job [of e j "w\<lparr>microtasks := js\<rparr>"] by simp
qed


text \<open>
  What the environment does between two checkpoints: it settles a promise the module is
  waiting for (a viewer answer, the first-visible signal, the fetch, the body of the
  response), or the delay of the armed timers elapses.
\<close>

datatype event = Settle pid outcome | TimerFire

definition fire_timers :: "world \<Rightarrow> world" where
  "fire_timers w =
     fold (\<lambda>(ms, d, message). settle d (Rejects (JError message))) (timers w) (w\<lparr>timers := []\<rparr>)"

fun occur :: "event \<Rightarrow> world \<Rightarrow> world" where
  "occur (Settle p out) w =
     (if p \<in> set (outstanding w)
      then settle p out (w\<lparr>outstanding := removeAll p (outstanding w)\<rparr>)
      else w)"
| "occur TimerFire w = fire_timers w"

definition deliver :: "env \<Rightarrow> world \<Rightarrow> event \<Rightarrow> world" where
  "deliver e w ev = run_microtasks e (occur ev w)"

text \<open>
  A tracking session: the page calls \<^verbatim>\<open>maybeTrackImpression(win)\<close>, the script ends
  (first checkpoint), then the events arrive one by one.
\<close>

definition start :: "env \<Rightarrow> location \<Rightarrow> world" where
  "start e loc = run_microtasks e (maybeTrackImpression e (init loc))"

definition run :: "env \<Rightarrow> location \<Rightarrow> event list \<Rightarrow> world" where
  "run e loc evs = foldl (deliver e) (start e loc) evs"


section \<open>Vocabulary of the properties\<close>

text \<open>A promise that has not been created yet: pending, with nothing attached.\<close>

definition fresh :: "world \<Rightarrow> pid \<Rightarrow> bool" where
  "fresh w p = (state w p = None \<and> p \<notin> fst ` set (reactions w))"

text \<open>The property \<open>k\<close> of a value that is neither \<^verbatim>\<open>undefined\<close> nor \<^verbatim>\<open>null\<close>.\<close>

definition prop_of :: "jsval \<Rightarrow> string \<Rightarrow> jsval" where
  "prop_of v k = (case get_prop v k of Inl x \<Rightarrow> JUndefined | Inr u \<Rightarrow> u)"

text \<open>
  A concrete page: the viewer passes \<^verbatim>\<open>click\<close> and \<^verbatim>\<open>replaceUrl\<close>, has no
  \<^verbatim>\<open>replaceUrl\<close> capability, no origin is a proxy origin, and the location in a response
  carries the query \<^verbatim>\<open>?a=1\<close>.
\<close>

definition example_env :: env where
  "example_env = \<lparr> getParam = (\<lambda>k. if k = ''click'' then Some ''https://ad.example/track''
                                else if k = ''replaceUrl'' then Some ''http://x'' else None),
     hasCapability = (\<lambda>k. False), isExperimentOn = (\<lambda>k. False), localDev = False, test = False,
     has_replaceState = True, isProxyOrigin = (\<lambda>v. False), parseUrl_search = (\<lambda>v. ''?a=1''),
     parseQueryString = (\<lambda>s. [(''a'', ''1'')]), addParamsToUrl = (\<lambda>h ps. h @ ''?a=1''),
     href_after_hash = (\<lambda>h u. u), location_after_replaceUrl = (\<lambda>v l. l),
     location_after_replaceState = (\<lambda>u l. l\<lparr>href := u\<rparr>) \<rparr>"

definition example_env_capable :: env where
  "example_env_capable = example_env\<lparr>hasCapability := (\<lambda>k. k = ''replaceUrl'')\<rparr>"

definition example_env_empty_click :: env where
  "example_env_empty_click = example_env\<lparr>getParam := (\<lambda>k. if k = ''click'' then Some [] else None)\<rparr>"

definition example_location :: location where
  "example_location = \<lparr>href = ''https://cdn.example/doc#click=1'', hash = ''#click=1''\<rparr>"

section \<open>Field by field: what each primitive changes\<close>

lemma perform_fields [simp]:
  "log (perform x w) = log w @ [x]"
  "state (perform x w) = state w"
  "reactions (perform x w) = reactions w"
  "microtasks (perform x w) = microtasks w"
  "outstanding (perform x w) = outstanding w"
  "timers (perform x w) = timers w"
  "all_values (perform x w) = all_values w"
  "win_location (perform x w) = win_location w"
  "trackImpressionPromise (perform x w) = trackImpressionPromise w"
  by (simp_all add: perform_def)

lemma enqueue_fields [simp]:
  "log (enqueue j w) = log w"
  "state (enqueue j w) = state w"
  "reactions (enqueue j w) = reactions w"
  "microtasks (enqueue j w) = microtasks w @ [j]"
  "outstanding (enqueue j w) = outstanding w"
  "timers (enqueue j w) = timers w"
  "all_values (enqueue j w) = all_values w"
  "win_location (enqueue j w) = win_location w"
  "trackImpressionPromise (enqueue j w) = trackImpressionPromise w"
  by (simp_all add: enqueue_def)

lemma settle_fields [simp]:
  "log (settle p out w) = log w"
  "state (settle p out w) = (if state w p = None then (state w)(p \<mapsto> out) else state w)"
  "reactions (settle p out w) =
     (if state w p = None then filter (\<lambda>(q, r). q \<noteq> p) (reactions w) else reactions w)"
  "microtasks (settle p out w) =
     (if state w p = None
      then microtasks w @ map (\<lambda>(q, r). ReactionJob r out) (filter (\<lambda>(q, r). q = p) (reactions w))
      else microtasks w)"
  "outstanding (settle p out w) = outstanding w"
  "timers (settle p out w) = timers w"
  "all_values (settle p out w) = all_values w"
  "win_location (settle p out w) = win_location w"
  "trackImpressionPromise (settle p out w) = trackImpressionPromise w"
  by (simp_all add: settle_def)

lemma subscribe_fields [simp]:
  "log (subscribe p r w) = log w"
  "state (subscribe p r w) = state w"
  "reactions (subscribe p r w) =
     (if state w p = None then reactions w @ [(p, r)] else reactions w)"
  "microtasks (subscribe p r w) =
     (case state w p of None \<Rightarrow> microtasks w | Some out \<Rightarrow> microtasks w @ [ReactionJob r out])"
  "outstanding (subscribe p r w) = outstanding w"
  "timers (subscribe p r w) = timers w"
  "all_values (subscribe p r w) = all_values w"
  "win_location (subscribe p r w) = win_location w"
  "trackImpressionPromise (subscribe p r w) = trackImpressionPromise w"
  by (simp_all add: subscribe_def split: option.splits)

lemma viewer_replaceUrl_fields [simp]:
  "log (viewer_replaceUrl e v w) = log w @ [ViewerReplaceUrl v]"
  "state (viewer_replaceUrl e v w) = state w"
  "reactions (viewer_replaceUrl e v w) = reactions w"
  "microtasks (viewer_replaceUrl e v w) = microtasks w"
  "outstanding (viewer_replaceUrl e v w) = outstanding w"
  "timers (viewer_replaceUrl e v w) = timers w"
  "all_values (viewer_replaceUrl e v w) = all_values w"
  "win_location (viewer_replaceUrl e v w) = location_after_replaceUrl e v (win_location w)"
  "trackImpressionPromise (viewer_replaceUrl e v w) = trackImpressionPromise w"
  by (simp_all add: viewer_replaceUrl_def)

lemma set_location_hash_fields [simp]:
  "log (set_location_hash e h w) = log w @ [SetLocationHash h]"
  "state (set_location_hash e h w) = state w"
  "reactions (set_location_hash e h w) = reactions w"
  "microtasks (set_location_hash e h w) = microtasks w"
  "outstanding (set_location_hash e h w) = outstanding w"
  "timers (set_location_hash e h w) = timers w"
  "all_values (set_location_hash e h w) = all_values w"
  "win_location (set_location_hash e h w) =
     \<lparr>href = href_after_hash e h (href (win_location w)), hash = h\<rparr>"
  "trackImpressionPromise (set_location_hash e h w) = trackImpressionPromise w"
  by (simp_all add: set_location_hash_def)

lemma history_replaceState_fields [simp]:
  "log (history_replaceState e s t u w) = log w @ [HistoryReplaceState s t u]"
  "state (history_replaceState e s t u w) = state w"
  "reactions (history_replaceState e s t u w) = reactions w"
  "microtasks (history_replaceState e s t u w) = microtasks w"
  "outstanding (history_replaceState e s t u w) = outstanding w"
  "timers (history_replaceState e s t u w) = timers w"
  "all_values (history_replaceState e s t u w) = all_values w"
  "win_location (history_replaceState e s t u w) = location_after_replaceState e u (win_location w)"
  "trackImpressionPromise (history_replaceState e s t u w) = trackImpressionPromise w"
  by (simp_all add: history_replaceState_def)

lemma external_call_fields [simp]:
  "fst (external_call x p w) = p"
  "log (snd (external_call x p w)) = log w @ [x]"
  "state (snd (external_call x p w)) = state w"
  "reactions (snd (external_call x p w)) = reactions w"
  "microtasks (snd (external_call x p w)) = microtasks w"
  "outstanding (snd (external_call x p w)) = outstanding w @ [p]"
  "timers (snd (external_call x p w)) = timers w"
  "all_values (snd (external_call x p w)) = all_values w"
  "win_location (snd (external_call x p w)) = win_location w"
  "trackImpressionPromise (snd (external_call x p w)) = trackImpressionPromise w"
  by (simp_all add: external_call_def)

lemma promise_then_eq [simp]:
  "fst (promise_then p f g d w) = d"
  "snd (promise_then p f g d w) = subscribe p (Then f g d) w"
  by (simp_all add: promise_then_def)

lemma promise_resolve_eq [simp]:
  "fst (promise_resolve d w) = d"
  "snd (promise_resolve d w) = settle d (Fulfils JUndefined) w"
  by (simp_all add: promise_resolve_def)

lemma filter_fst_neq:
  "p \<notin> fst ` set xs \<Longrightarrow> filter (\<lambda>(q, r). q \<noteq> p) xs = xs"
  by (induction xs) auto

lemma filter_fst_eq:
  "p \<notin> fst ` set xs \<Longrightarrow> filter (\<lambda>(q, r). q = p) xs = []"
  by (induction xs) auto

lemma handleReplaceUrl_unfold:
  "handleReplaceUrl e w =
     (if \<not> truthy (param_val (getParam e ''replaceUrl'')) then
        (P_replaceUrlPromise, settle P_replaceUrlPromise (Fulfils JUndefined) w)
      else if \<not> hasCapability e ''replaceUrl'' then
        (P_replaceUrlPromise, settle P_replaceUrlPromise (Fulfils JUndefined)
          (viewer_replaceUrl e (js_or (param_val (getParam e ''replaceUrl'')) JNull) w))
      else
        (P_replaceUrlPromise,
         subscribe P_getReplaceUrl (Then (Some ReplaceUrlResponse) (Some ReplaceUrlError) P_replaceUrlPromise)
           (snd (external_call (SendMessageAwaitResponse ''getReplaceUrl'' JUndefined) P_getReplaceUrl w))))"
  by (simp add: handleReplaceUrl_def promise_resolve_def promise_then_def external_call_def)

declare run_microtasks.simps [simp del]

lemma run_microtasks_Nil: "microtasks w = [] \<Longrightarrow> run_microtasks e w = w"
  by (simp add: run_microtasks.simps)

lemma run_microtasks_Cons:
  "microtasks w = j # js \<Longrightarrow> run_microtasks e w = run_microtasks e (run_job e j (w\<lparr>microtasks := js\<rparr>))"
  by (simp add: run_microtasks.simps)


section \<open>\<^verbatim>\<open>indexOf\<close> and prefixes\<close>

lemma indexOf_from_ge: "indexOf_from s t i = - 1 \<or> int i \<le> indexOf_from s t i"
  by (induction s t i rule: indexOf_from.induct) auto

lemma indexOf_zero: "(indexOf s t = 0) = prefix t s"
proof (cases s)
  case Nil
  then show ?thesis by (simp add: indexOf_def)
next
  case (Cons c cs)
  have "indexOf_from cs t (Suc 0) \<noteq> 0" using indexOf_from_ge [of cs t "Suc 0"] by auto
  then show ?thesis using Cons by (simp add: indexOf_def)
qed


section \<open>The session handle\<close>

text \<open>
  Claim C9. Before any session has been started (the initial world of any window), and
  after \<^verbatim>\<open>resetTrackImpressionPromiseForTesting\<close> in any world,
  \<^verbatim>\<open>getTrackImpressionPromise\<close> fails with the assertion error; and it returns a handle
  only when that handle is the one stored, so it never returns an unset handle.
\<close>

theorem getTrackImpressionPromise_unset:
  "getTrackImpressionPromise (init loc) = Inl AssertionError
   \<and> getTrackImpressionPromise (resetTrackImpressionPromiseForTesting w) = Inl AssertionError
   \<and> (getTrackImpressionPromise w = Inr p) = (trackImpressionPromise w = Some p)"
  by (simp add: getTrackImpressionPromise_def resetTrackImpressionPromiseForTesting_def init_def
      dev_assert_def split: option.splits)


section \<open>The replace-URL step\<close>

text \<open>
  Claim C4. When the \<^verbatim>\<open>replaceUrl\<close> parameter is a non-empty string and the viewer
  lacks the \<^verbatim>\<open>replaceUrl\<close> capability, the call of \<^verbatim>\<open>handleReplaceUrl\<close> itself invokes
  \<^verbatim>\<open>viewer.replaceUrl\<close> with exactly that string and does nothing else: no message is
  sent (no promise is awaited from outside, no reaction is attached, no job is queued),
  and the promise it returns is fulfilled.
\<close>

theorem handleReplaceUrl_legacy:
  assumes "getParam e ''replaceUrl'' = Some u" and "u \<noteq> []"
    and "\<not> hasCapability e ''replaceUrl''" and "fresh w P_replaceUrlPromise"
  shows "fst (handleReplaceUrl e w) = P_replaceUrlPromise
     \<and> log (snd (handleReplaceUrl e w)) = log w @ [ViewerReplaceUrl (JStr u)]
     \<and> state (snd (handleReplaceUrl e w)) P_replaceUrlPromise = Some (Fulfils JUndefined)
     \<and> outstanding (snd (handleReplaceUrl e w)) = outstanding w
     \<and> reactions (snd (handleReplaceUrl e w)) = reactions w
     \<and> microtasks (snd (handleReplaceUrl e w)) = microtasks w"
  using assms
  by (simp add: handleReplaceUrl_unfold param_val_def js_or_def fresh_def
      filter_fst_neq filter_fst_eq)


theorem handleReplaceUrl_legacy_witness:
  "getParam example_env ''replaceUrl'' = Some ''http://x''
   \<and> fresh (init example_location) P_replaceUrlPromise
   \<and> log (snd (handleReplaceUrl example_env (init example_location)))
       = [ViewerReplaceUrl (JStr ''http://x'')]
   \<and> state (snd (handleReplaceUrl example_env (init example_location))) P_replaceUrlPromise
       = Some (Fulfils JUndefined)
   \<and> outstanding (snd (handleReplaceUrl example_env (init example_location))) = []"
  using handleReplaceUrl_legacy [of example_env "''http://x''" "init example_location"]
  by (simp add: example_env_def fresh_def init_def)

text \<open>
  Claim C5. With the parameter present and the capability supported,
  \<^verbatim>\<open>handleReplaceUrl\<close> sends \<^verbatim>\<open>getReplaceUrl\<close> and leaves its promise pending. When the
  viewer settles the message, whatever the outcome, the promise of the step is fulfilled
  and exactly one more effect is logged: \<^verbatim>\<open>viewer.replaceUrl\<close> with the response's
  \<^verbatim>\<open>replaceUrl\<close> field or \<^verbatim>\<open>null\<close> when the response is a truthy object; a warning,
  and no \<^verbatim>\<open>viewer.replaceUrl\<close>, when the response is missing or not an object or the
  message is rejected.
\<close>

theorem getReplaceUrl_response:
  assumes "getParam e ''replaceUrl'' = Some u" and "u \<noteq> []" and "hasCapability e ''replaceUrl''"
    and "microtasks w = []" and "fresh w P_getReplaceUrl" and "fresh w P_replaceUrlPromise"
  shows "let w1 = snd (handleReplaceUrl e w);
             w2 = deliver e w1 (Settle P_getReplaceUrl out)
         in log w1 = log w @ [SendMessageAwaitResponse ''getReplaceUrl'' JUndefined]
          \<and> state w1 P_replaceUrlPromise = None
          \<and> state w2 P_replaceUrlPromise = Some (Fulfils JUndefined)
          \<and> log w2 = log w1 @
              [case out of
                 Fulfils response \<Rightarrow>
                   if truthy response \<and> typeof_object response
                   then ViewerReplaceUrl (js_or (prop_of response ''replaceUrl'') JNull)
                   else DevWarn [JStr ''IMPRESSION'', JStr ''get invalid replaceUrl response'']
               | Rejects err \<Rightarrow>
                   DevWarn [JStr ''IMPRESSION'', JStr ''Error request replaceUrl from viewer'', err]]"
proof -
  define R where "R = Then (Some ReplaceUrlResponse) (Some ReplaceUrlError) P_replaceUrlPromise"
  define w1 where "w1 = snd (handleReplaceUrl e w)"
  define w2 where "w2 = settle P_getReplaceUrl out (w1\<lparr>outstanding := removeAll P_getReplaceUrl (outstanding w1)\<rparr>)"
  have w1: "log w1 = log w @ [SendMessageAwaitResponse ''getReplaceUrl'' JUndefined]"
    "state w1 = state w" "reactions w1 = reactions w @ [(P_getReplaceUrl, R)]"
    "microtasks w1 = []" "P_getReplaceUrl \<in> set (outstanding w1)"
    using assms by (simp_all add: w1_def R_def handleReplaceUrl_unfold param_val_def fresh_def)
  have occ: "occur (Settle P_getReplaceUrl out) w1 = w2"
    using w1 by (simp add: w2_def)
  have w2: "log w2 = log w1" "microtasks w2 = [ReactionJob R out]"
    "state w2 P_replaceUrlPromise = None"
    "filter (\<lambda>(q, r). q = P_replaceUrlPromise) (reactions w2) = []"
    using assms w1 by (simp_all add: w2_def fresh_def filter_fst_eq filter_fst_neq)
  define w3 where "w3 = run_job e (ReactionJob R out) (w2\<lparr>microtasks := []\<rparr>)"
  have w3: "microtasks w3 = [] \<and> state w3 P_replaceUrlPromise = Some (Fulfils JUndefined) \<and>
    log w3 = log w1 @
       [case out of
          Fulfils response \<Rightarrow>
            if truthy response \<and> typeof_object response
            then ViewerReplaceUrl (js_or (prop_of response ''replaceUrl'') JNull)
            else DevWarn [JStr ''IMPRESSION'', JStr ''get invalid replaceUrl response'']
        | Rejects err \<Rightarrow>
            DevWarn [JStr ''IMPRESSION'', JStr ''Error request replaceUrl from viewer'', err]]"
  proof (cases out)
    case (Fulfils response)
    then show ?thesis
      using w2 by (cases response) (simp_all add: w3_def R_def prop_of_def)
  next
    case (Rejects err)
    then show ?thesis
      using w2 by (simp add: w3_def R_def)
  qed
  have "deliver e w1 (Settle P_getReplaceUrl out) = w3"
    unfolding deliver_def occ
    using run_microtasks_Cons [of w2 "ReactionJob R out" "[]" e] run_microtasks_Nil [of w3 e] w2(2) w3
    by (simp add: w3_def)
  then show ?thesis
    using w1 w3 assms by (simp add: Let_def w1_def [symmetric] fresh_def)
qed


theorem getReplaceUrl_response_witness:
  "hasCapability example_env_capable ''replaceUrl''
   \<and> log (deliver example_env_capable
            (snd (handleReplaceUrl example_env_capable (init example_location)))
            (Settle P_getReplaceUrl (Fulfils (JObj [(''replaceUrl'', JStr ''http://y'')]))))
       = [SendMessageAwaitResponse ''getReplaceUrl'' JUndefined, ViewerReplaceUrl (JStr ''http://y'')]
   \<and> log (deliver example_env_capable
            (snd (handleReplaceUrl example_env_capable (init example_location)))
            (Settle P_getReplaceUrl (Fulfils (JStr ''yes''))))
       = [SendMessageAwaitResponse ''getReplaceUrl'' JUndefined,
          DevWarn [JStr ''IMPRESSION'', JStr ''get invalid replaceUrl response'']]"
  using getReplaceUrl_response [of example_env_capable "''http://x''" "init example_location"
      "Fulfils (JObj [(''replaceUrl'', JStr ''http://y'')])"]
    getReplaceUrl_response [of example_env_capable "''http://x''" "init example_location"
      "Fulfils (JStr ''yes'')"]
  by (simp add: example_env_capable_def example_env_def fresh_def init_def Let_def prop_of_def js_or_def)

section \<open>The click-tracking step\<close>

text \<open>
  Claim C6, as amended. For a \<^verbatim>\<open>click\<close> parameter that is not empty and does not begin
  with \<^verbatim>\<open>https://\<close>, \<^verbatim>\<open>handleClickUrl\<close> logs the warning, issues no request (it awaits
  nothing, attaches nothing, queues nothing, leaves the location alone) and returns a
  fulfilled promise. For the empty \<^verbatim>\<open>click\<close> parameter it does the same without the
  warning.
\<close>

theorem handleClickUrl_bad_scheme:
  assumes "getParam e ''click'' = Some c" and "\<not> prefix ''https://'' c"
    and "fresh w P_clickUrlPromise"
  shows "fst (handleClickUrl e w) = P_clickUrlPromise
     \<and> log (snd (handleClickUrl e w)) =
         log w @ (if c = [] then []
                  else [UserWarn [JStr ''IMPRESSION'',
                          JStr ''click fragment param should start with https://. Found '',
                          JStr c]])
     \<and> state (snd (handleClickUrl e w)) P_clickUrlPromise = Some (Fulfils JUndefined)
     \<and> outstanding (snd (handleClickUrl e w)) = outstanding w
     \<and> reactions (snd (handleClickUrl e w)) = reactions w
     \<and> microtasks (snd (handleClickUrl e w)) = microtasks w
     \<and> win_location (snd (handleClickUrl e w)) = win_location w"
  using assms
  by (simp add: handleClickUrl_def indexOf_zero fresh_def filter_fst_neq filter_fst_eq)


theorem handleClickUrl_bad_scheme_witness:
  "\<not> prefix ''https://'' ''ftp://evil''
   \<and> log (snd (handleClickUrl (example_env\<lparr>getParam := (\<lambda>k. Some ''ftp://evil'')\<rparr>)
             (init example_location)))
       = [UserWarn [JStr ''IMPRESSION'',
            JStr ''click fragment param should start with https://. Found '', JStr ''ftp://evil'']]
   \<and> state (snd (handleClickUrl (example_env\<lparr>getParam := (\<lambda>k. Some ''ftp://evil'')\<rparr>)
               (init example_location))) P_clickUrlPromise
       = Some (Fulfils JUndefined)"
  using handleClickUrl_bad_scheme [of "example_env\<lparr>getParam := (\<lambda>k. Some ''ftp://evil'')\<rparr>"
      "''ftp://evil''" "init example_location"]
  by (simp add: fresh_def init_def)

text \<open>
  The empty \<^verbatim>\<open>click\<close> parameter does not begin with \<^verbatim>\<open>https://\<close>, and no warning is
  logged for it.
\<close>

theorem handleClickUrl_empty_click_counterexample:
  "getParam example_env_empty_click ''click'' = Some []
   \<and> \<not> prefix ''https://'' ([] :: string)
   \<and> log (snd (handleClickUrl example_env_empty_click (init example_location))) = []"
  by (simp add: example_env_empty_click_def example_env_def handleClickUrl_def init_def)

section \<open>Applying the response\<close>

text \<open>
  The spec's word for a field of the response: a field is present when the response
  carries a value for it, the empty string included.
\<close>

definition spec_present :: "jsval \<Rightarrow> bool" where
  "spec_present v = (v \<noteq> JUndefined \<and> v \<noteq> JNull)"

text \<open>
  Claim C8, with truthiness in the place of presence. For a response that has
  properties, \<^verbatim>\<open>applyResponse\<close> returns normally and adds to the log, in this order: the
  image request for \<open>trackUrl\<close>, which is \<^verbatim>\<open>tracking_url\<close> when that is truthy (not
  missing and not the empty string) and \<^verbatim>\<open>location\<close> otherwise, exactly when \<open>trackUrl\<close>
  is truthy and not a proxy origin; then, exactly when \<^verbatim>\<open>location\<close> is truthy and
  \<^verbatim>\<open>history.replaceState\<close> exists, one \<^verbatim>\<open>replaceState\<close> (the only history operation
  there is) whose URL is the current \<^verbatim>\<open>href\<close> with the parameters parsed from the search
  part of \<^verbatim>\<open>location\<close> added.
\<close>

theorem applyResponse_effects:
  assumes "response \<noteq> JUndefined" and "response \<noteq> JNull"
  shows "\<exists>w'. applyResponse e response w = Inr w'
     \<and> log w' = log w
         @ (let trackUrl = (if truthy (prop_of response ''tracking_url'')
                            then prop_of response ''tracking_url''
                            else prop_of response ''location'')
            in if truthy trackUrl \<and> \<not> isProxyOrigin e trackUrl then [ImageSrc trackUrl] else [])
         @ (if truthy (prop_of response ''location'') \<and> has_replaceState e
            then [HistoryReplaceState JNull []
                    (addParamsToUrl e (href (win_location w))
                       (parseQueryString e (parseUrl_search e (prop_of response ''location''))))]
            else [])"
  using assms
  by (cases response)
     (simp_all add: applyResponse_def prop_of_def js_or_def Let_def)
theorem applyResponse_effects_witness:
  "\<exists>w'. applyResponse example_env
           (JObj [(''location'', JStr ''https://x/?a=1''),
                  (''tracking_url'', JStr ''https://track.example'')])
           (init example_location) = Inr w'
     \<and> log w' = [ImageSrc (JStr ''https://track.example''),
                  HistoryReplaceState JNull [] ''https://cdn.example/doc#click=1?a=1'']"
  using applyResponse_effects [of "JObj [(''location'', JStr ''https://x/?a=1''),
      (''tracking_url'', JStr ''https://track.example'')]" example_env "init example_location"]
  by (simp add: example_env_def example_location_def init_def prop_of_def)

text \<open>
  With presence the claim fails on the empty string. A \<^verbatim>\<open>tracking_url\<close> that is present
  and empty is passed over by \<^verbatim>\<open>adTracking || adLocation\<close>, and the image request goes
  to \<^verbatim>\<open>location\<close>; a \<^verbatim>\<open>location\<close> that is present and empty fails \<^verbatim>\<open>if (adLocation)\<close>,
  and the history entry is not replaced although \<^verbatim>\<open>replaceState\<close> exists.
\<close>

theorem applyResponse_empty_string_counterexample:
  "spec_present (prop_of (JObj [(''tracking_url'', JStr []), (''location'', JStr ''https://x/?a=1'')])
      ''tracking_url'')
   \<and> (case applyResponse example_env
             (JObj [(''tracking_url'', JStr []), (''location'', JStr ''https://x/?a=1'')])
             (init example_location)
       of Inl x \<Rightarrow> None | Inr w' \<Rightarrow> Some (log w'))
      = Some [ImageSrc (JStr ''https://x/?a=1''),
              HistoryReplaceState JNull [] ''https://cdn.example/doc#click=1?a=1'']
   \<and> spec_present (prop_of (JObj [(''tracking_url'', JStr ''https://t.example''), (''location'', JStr [])])
      ''location'')
   \<and> has_replaceState example_env
   \<and> (case applyResponse example_env
             (JObj [(''tracking_url'', JStr ''https://t.example''), (''location'', JStr [])])
             (init example_location)
       of Inl x \<Rightarrow> None | Inr w' \<Rightarrow> Some (log w'))
      = Some [ImageSrc (JStr ''https://t.example'')]"
  by (simp add: spec_present_def applyResponse_def prop_of_def js_or_def example_env_def
      example_location_def init_def perform_def history_replaceState_def Let_def)





section \<open>The promise graph of a session\<close>

text \<open>
  The reactions that the module attaches, each with the promise it is attached to. Every
  reaction in the store and every job in the queue of a session is one of these.
\<close>



abbreviation R_catch :: reaction where "R_catch \<equiv> Then None (Some WarnTimeout) P_trackImpression"
abbreviation R_trust :: reaction where "R_trust \<equiv> Then (Some TrustResults) None P_trustThen"
abbreviation R_replace :: reaction where
  "R_replace \<equiv> Then (Some ReplaceUrlResponse) (Some ReplaceUrlError) P_replaceUrlPromise"
abbreviation R_visible :: "string \<Rightarrow> reaction" where
  "R_visible u \<equiv> Then (Some (VisibleInvoke u)) None P_visibleThen"
abbreviation R_click :: reaction where "R_click \<equiv> Then (Some ClickResponse) None P_clickUrlPromise"
abbreviation R_fetch :: reaction where "R_fetch \<equiv> Then (Some ResJson) None P_invoke"
abbreviation R_join :: reaction where
  "R_join \<equiv> Then (Some JoinResolve) (Some JoinSwallow) P_joinThen"

definition click_of :: "env \<Rightarrow> string" where
  "click_of e = (case getParam e ''click'' of None \<Rightarrow> [] | Some u \<Rightarrow> u)"

definition wiring :: "env \<Rightarrow> (pid \<times> reaction) list" where
  "wiring e =
     [(P_promise, Adopt P_timeout), (P_timeout, R_catch),
      (P_isTrustedViewer, AllElement P_trustAll 0), (P_isTrustedReferrer, AllElement P_trustAll 1),
      (P_trustAll, R_trust),
      (P_getReplaceUrl, R_replace), (P_replaceUrlPromise, AllElement P_join 0),
      (P_whenFirstVisible, R_visible (click_of e)), (P_visibleThen, R_click),
      (P_fetchJson, R_fetch), (P_invoke, Adopt P_visibleThen), (P_json, Adopt P_invoke),
      (P_clickUrlPromise, AllElement P_join 1), (P_join, R_join)]"

fun job_ok :: "env \<Rightarrow> world \<Rightarrow> job \<Rightarrow> bool" where
  "job_ok e w (ReactionJob r out) = (\<exists>p. (p, r) \<in> set (wiring e) \<and> state w p = Some out)"
| "job_ok e w (ThenableJob q d) = ((q, Adopt d) \<in> set (wiring e))"

definition job_step :: "env \<Rightarrow> world \<Rightarrow> world" where
  "job_step e w = (case microtasks w of [] \<Rightarrow> w | j # js \<Rightarrow> run_job e j (w\<lparr>microtasks := js\<rparr>))"

definition tokens :: "(reaction \<Rightarrow> bool) \<Rightarrow> world \<Rightarrow> nat" where
  "tokens Q w = length (filter (\<lambda>(p, r). Q r) (reactions w))
     + length (filter (\<lambda>j. case j of ReactionJob r out \<Rightarrow> Q r | ThenableJob q d \<Rightarrow> False) (microtasks w))"

definition timer0 :: "nat \<times> pid \<times> string" where
  "timer0 = (TIMEOUT_VALUE, P_timeout, ''TrackImpressionPromise timeout'')"

definition external :: "pid set" where
  "external = {P_isTrustedViewer, P_isTrustedReferrer, P_getReplaceUrl, P_whenFirstVisible,
               P_fetchJson, P_json}"

definition link :: "world \<Rightarrow> pid \<Rightarrow> reaction \<Rightarrow> bool \<Rightarrow> bool" where
  "link w p r done = (case state w p of
       None \<Rightarrow> (p, r) \<in> set (reactions w)
     | Some out \<Rightarrow> ReactionJob r out \<in> set (microtasks w) \<or> done)"

lemma run_microtasks_step:
  "run_microtasks e w = (if microtasks w = [] then w else run_microtasks e (job_step e w))"
  by (cases "microtasks w") (simp_all add: run_microtasks_Nil run_microtasks_Cons job_step_def)

lemma run_microtasks_preserves:
  assumes "\<And>w. I w \<Longrightarrow> microtasks w \<noteq> [] \<Longrightarrow> I (job_step e w)" and "I w"
  shows "I (run_microtasks e w)"
  using assms
proof (induction e w rule: run_microtasks.induct)
  case (1 e w)
  show ?case
  proof (cases "microtasks w")
    case Nil
    then show ?thesis using 1(3) by (simp add: run_microtasks_Nil)
  next
    case (Cons j js)
    have "I (job_step e w)" using 1(2) [OF 1(3)] Cons by simp
    then have "I (run_job e j (w\<lparr>microtasks := js\<rparr>))" using Cons by (simp add: job_step_def)
    then have "I (run_microtasks e (run_job e j (w\<lparr>microtasks := js\<rparr>)))"
      using 1(1) [OF Cons] 1(2) by simp
    then show ?thesis using Cons by (simp add: run_microtasks_Cons)
  qed
qed

lemma run_microtasks_quiescent: "microtasks (run_microtasks e w) = []"
proof (induction e w rule: run_microtasks.induct)
  case (1 e w)
  show ?case
  proof (cases "microtasks w")
    case Nil
    then show ?thesis by (simp add: run_microtasks_Nil)
  next
    case (Cons j js)
    then show ?thesis using 1 [OF Cons] by (simp add: run_microtasks_Cons)
  qed
qed

lemma tokens_fields [simp]:
  "tokens Q (perform x w) = tokens Q w"
  "tokens Q (viewer_replaceUrl e v w) = tokens Q w"
  "tokens Q (set_location_hash e h w) = tokens Q w"
  "tokens Q (history_replaceState e s t u w) = tokens Q w"
  "tokens Q (snd (external_call x p w)) = tokens Q w"
  "tokens Q (w\<lparr>all_values := a\<rparr>) = tokens Q w"
  "tokens Q (w\<lparr>outstanding := os\<rparr>) = tokens Q w"
  "tokens Q (w\<lparr>timers := ts\<rparr>) = tokens Q w"
  "tokens Q (w\<lparr>trackImpressionPromise := tp\<rparr>) = tokens Q w"
  by (simp_all add: tokens_def)

lemma tokens_enqueue [simp]:
  "tokens Q (enqueue j w) = tokens Q w + (case j of ReactionJob r out \<Rightarrow> if Q r then 1 else 0 | ThenableJob q d \<Rightarrow> 0)"
  by (simp add: tokens_def split: job.splits)

lemma tokens_subscribe [simp]:
  "tokens Q (subscribe p r w) = tokens Q w + (if Q r then 1 else 0)"
  by (simp add: tokens_def split: option.splits)

lemma tokens_move:
  "length (filter (\<lambda>(p, r). Q r) (filter (\<lambda>(q, r). q \<noteq> p) xs))
   + length (filter (\<lambda>j. case j of ReactionJob r out \<Rightarrow> Q r | ThenableJob q d \<Rightarrow> False)
       (map (\<lambda>(q, r). ReactionJob r out) (filter (\<lambda>(q, r). q = p) xs)))
   = length (filter (\<lambda>(p, r). Q r) xs)"
  by (induction xs) auto

lemma tokens_settle [simp]: "tokens Q (settle p out w) = tokens Q w"
  using tokens_move [where Q = Q and p = p and out = out and xs = "reactions w"]
  by (cases "state w p") (simp_all add: tokens_def del: filter_filter filter_map)

lemma tokens_pop:
  "microtasks w = j # js \<Longrightarrow>
   tokens Q w = tokens Q (w\<lparr>microtasks := js\<rparr>)
      + (case j of ReactionJob r out \<Rightarrow> if Q r then 1 else 0 | ThenableJob q d \<Rightarrow> 0)"
  by (simp add: tokens_def split: job.splits)

lemma promise_all2:
  "promise_all [p, q] d w =
     (d, subscribe q (AllElement d 1) (subscribe p (AllElement d 0)
           (w\<lparr>all_values := (all_values w)(d := [None, None])\<rparr>)))"
  by (simp add: promise_all_def Let_def)

lemma handleClickUrl_unfold:
  "handleClickUrl e w =
     (if \<not> truthy (JStr (click_of e)) then
        (P_clickUrlPromise, settle P_clickUrlPromise (Fulfils JUndefined) w)
      else if \<not> prefix ''https://'' (click_of e) then
        (P_clickUrlPromise, settle P_clickUrlPromise (Fulfils JUndefined)
           (perform (UserWarn [JStr ''IMPRESSION'',
                 JStr ''click fragment param should start with https://. Found '',
                 JStr (click_of e)]) w))
      else
        (P_clickUrlPromise,
         subscribe P_visibleThen R_click
           (subscribe P_whenFirstVisible (R_visible (click_of e))
              (snd (external_call WhenFirstVisible P_whenFirstVisible
                 (if truthy (JStr (hash (win_location w))) then set_location_hash e [] w else w))))))"
proof (cases "getParam e ''click''")
  case None
  then show ?thesis by (simp add: handleClickUrl_def click_of_def promise_resolve_def)
next
  case (Some u)
  then show ?thesis
    by (simp add: handleClickUrl_def click_of_def indexOf_zero promise_then_def promise_resolve_def
        split_beta Let_def)
qed

lemma invoke_unfold:
  "invoke e u w =
     (P_invoke, subscribe P_fetchJson R_fetch
        (snd (external_call
           (FetchJson (if localDev e \<and> \<not> test e
                       then ''http://localhost:8000/impression-proxy?url='' @ u else u))
           P_fetchJson w)))"
  by (simp add: invoke_def promise_then_def split_beta Let_def)

lemma fst_handle [simp]:
  "fst (handleReplaceUrl e w) = P_replaceUrlPromise"
  "fst (handleClickUrl e w) = P_clickUrlPromise"
  by (simp_all add: handleReplaceUrl_unfold handleClickUrl_unfold)

definition trust_body :: "env \<Rightarrow> jsval \<Rightarrow> jsval \<Rightarrow> world \<Rightarrow> world" where
  "trust_body e v1 v2 w =
     (if \<not> truthy v1 \<and> \<not> truthy v2 \<and> \<not> isExperimentOn e ''alp''
      then settle P_promise (Fulfils JUndefined) w
      else subscribe P_join R_join
              (subscribe P_clickUrlPromise (AllElement P_join 1)
                (subscribe P_replaceUrlPromise (AllElement P_join 0)
                  ((snd (handleClickUrl e (snd (handleReplaceUrl e w))))
                     \<lparr>all_values := (all_values (snd (handleClickUrl e (snd (handleReplaceUrl e w)))))
                                       (P_join := [None, None])\<rparr>))))"

lemma trustResults_unfold:
  "trustResults e v w =
     (case get_index v 0 of Inl x \<Rightarrow> (Throw x, w) | Inr v1 \<Rightarrow>
      case get_index v 1 of Inl x \<Rightarrow> (Throw x, w) | Inr v2 \<Rightarrow>
        (Return JUndefined, trust_body e v1 v2 w))"
  by (simp add: trustResults_def trust_body_def resolveImpression_def
      promise_then_def promise_all2 split_beta Let_def split: sum.splits)

lemma maybeTrackImpression_unfold:
  "maybeTrackImpression e w =
     subscribe P_trustAll R_trust
       (subscribe P_isTrustedReferrer (AllElement P_trustAll 1)
         (subscribe P_isTrustedViewer (AllElement P_trustAll 0)
           ((snd (external_call IsTrustedReferrer P_isTrustedReferrer
              (snd (external_call IsTrustedViewer P_isTrustedViewer
                 ((subscribe P_timeout R_catch
                    (subscribe P_promise (Adopt P_timeout) (w\<lparr>timers := timers w @ [timer0]\<rparr>)))
                  \<lparr>trackImpressionPromise := Some P_trackImpression\<rparr>)))))
            \<lparr>all_values := (all_values w)(P_trustAll := [None, None])\<rparr>)))"
  by (simp add: maybeTrackImpression_def timeoutPromise_def promise_then_def promise_all2 timer0_def
      split_beta Let_def)

definition wired :: "env \<Rightarrow> world \<Rightarrow> bool" where
  "wired e w =
     ((\<forall>(p, r) \<in> set (reactions w). (p, r) \<in> set (wiring e) \<and> state w p = None)
      \<and> (\<forall>j \<in> set (microtasks w). job_ok e w j))"

lemma job_ok_mono:
  "job_ok e w j \<Longrightarrow> (\<And>p out. state w p = Some out \<Longrightarrow> state w' p = Some out) \<Longrightarrow> job_ok e w' j"
  by (cases j) auto

lemma job_ok_cong: "state w' = state w \<Longrightarrow> job_ok e w' j = job_ok e w j"
  by (cases j) simp_all

lemma wired_cong:
  "state w' = state w \<Longrightarrow> reactions w' = reactions w \<Longrightarrow> microtasks w' = microtasks w \<Longrightarrow>
   wired e w' = wired e w"
  using job_ok_cong [of w' w e] by (simp add: wired_def)

lemma wired_fields [simp]:
  "wired e (perform x w) = wired e w"
  "wired e (viewer_replaceUrl e' v w) = wired e w"
  "wired e (set_location_hash e' h w) = wired e w"
  "wired e (history_replaceState e' s t u w) = wired e w"
  "wired e (snd (external_call x p w)) = wired e w"
  "wired e (w\<lparr>all_values := a\<rparr>) = wired e w"
  "wired e (w\<lparr>outstanding := os\<rparr>) = wired e w"
  "wired e (w\<lparr>timers := ts\<rparr>) = wired e w"
  "wired e (w\<lparr>trackImpressionPromise := tp\<rparr>) = wired e w"
  by (rule wired_cong; simp)+

lemma wired_settle [simp]: "wired e w \<Longrightarrow> wired e (settle p out w)"
  unfolding wired_def
proof (intro conjI ballI)
  assume a: "(\<forall>(p, r)\<in>set (reactions w). (p, r) \<in> set (wiring e) \<and> state w p = None) \<and>
    (\<forall>j\<in>set (microtasks w). job_ok e w j)"
  show "\<And>x. x \<in> set (reactions (settle p out w)) \<Longrightarrow>
      case x of (q, r) \<Rightarrow> (q, r) \<in> set (wiring e) \<and> state (settle p out w) q = None"
    using a by (auto split: if_splits)
  fix j assume j: "j \<in> set (microtasks (settle p out w))"
  show "job_ok e (settle p out w) j"
  proof (cases "state w p")
    case None
    then have "j \<in> set (microtasks w) \<or> (\<exists>r. (p, r) \<in> set (reactions w) \<and> j = ReactionJob r out)"
      using j by auto
    then show ?thesis
    proof
      assume "j \<in> set (microtasks w)"
      then have "job_ok e w j" using a by simp
      then show ?thesis by (rule job_ok_mono) (use None in auto)
    next
      assume "\<exists>r. (p, r) \<in> set (reactions w) \<and> j = ReactionJob r out"
      then obtain r where r: "(p, r) \<in> set (reactions w)" "j = ReactionJob r out" by blast
      then have "(p, r) \<in> set (wiring e)" using a by auto
      then show ?thesis using r None by (auto intro!: exI [of _ p])
    qed
  next
    case (Some o')
    then show ?thesis using a j by (simp add: settle_def)
  qed
qed

lemma wired_subscribe [simp]:
  "wired e w \<Longrightarrow> (p, r) \<in> set (wiring e) \<Longrightarrow> wired e (subscribe p r w)"
  unfolding wired_def
  by (cases "state w p") (auto intro: job_ok_mono)

lemma wired_thenable [simp]:
  "wired e w \<Longrightarrow> (q, Adopt d) \<in> set (wiring e) \<Longrightarrow> wired e (enqueue (ThenableJob q d) w)"
  unfolding wired_def by (auto intro: job_ok_mono)

lemma wired_pop:
  "wired e w \<Longrightarrow> microtasks w = j # js \<Longrightarrow> wired e (w\<lparr>microtasks := js\<rparr>) \<and> job_ok e w j"
  unfolding wired_def by (auto intro: job_ok_mono)

lemma wiring_mem [simp]:
  "(P_promise, Adopt P_timeout) \<in> set (wiring e)"
  "(P_timeout, R_catch) \<in> set (wiring e)"
  "(P_isTrustedViewer, AllElement P_trustAll 0) \<in> set (wiring e)"
  "(P_isTrustedReferrer, AllElement P_trustAll (Suc 0)) \<in> set (wiring e)"
  "(P_trustAll, R_trust) \<in> set (wiring e)"
  "(P_getReplaceUrl, R_replace) \<in> set (wiring e)"
  "(P_replaceUrlPromise, AllElement P_join 0) \<in> set (wiring e)"
  "(P_whenFirstVisible, R_visible (click_of e)) \<in> set (wiring e)"
  "(P_visibleThen, R_click) \<in> set (wiring e)"
  "(P_fetchJson, R_fetch) \<in> set (wiring e)"
  "(P_invoke, Adopt P_visibleThen) \<in> set (wiring e)"
  "(P_json, Adopt P_invoke) \<in> set (wiring e)"
  "(P_clickUrlPromise, AllElement P_join (Suc 0)) \<in> set (wiring e)"
  "(P_join, R_join) \<in> set (wiring e)"
  by (simp_all add: wiring_def)

lemma wired_handleReplaceUrl [simp]: "wired e w \<Longrightarrow> wired e (snd (handleReplaceUrl e w))"
  by (simp add: handleReplaceUrl_unfold)

lemma wired_handleClickUrl [simp]: "wired e w \<Longrightarrow> wired e (snd (handleClickUrl e w))"
  by (simp add: handleClickUrl_unfold)

lemma wired_trust_body [simp]: "wired e w \<Longrightarrow> wired e (trust_body e v1 v2 w)"
  by (simp add: trust_body_def)

lemma call_unfold:
  "call e ResJson v w =
     (if v = JResponse then (ReturnPromise P_json, snd (external_call ResponseJson P_json w))
      else (Throw TypeError, w))"
  "call e (VisibleInvoke u) v w = (ReturnPromise P_invoke, snd (invoke e u w))"
  "call e TrustResults v w = trustResults e v w"
  "call e JoinResolve v w = (Return JUndefined, settle P_promise (Fulfils JUndefined) w)"
  "call e JoinSwallow v w = (Return JUndefined, w)"
  "call e WarnTimeout v w = (Return JUndefined, perform (DevWarn [JStr ''IMPRESSION'', v]) w)"
  "call e ReplaceUrlError v w =
     (Return JUndefined,
      perform (DevWarn [JStr ''IMPRESSION'', JStr ''Error request replaceUrl from viewer'', v]) w)"
  "call e ReplaceUrlResponse v w =
     (if \<not> truthy v \<or> \<not> typeof_object v then
        (Return JUndefined,
         perform (DevWarn [JStr ''IMPRESSION'', JStr ''get invalid replaceUrl response'']) w)
      else (Return JUndefined, viewer_replaceUrl e (js_or (prop_of v ''replaceUrl'') JNull) w))"
  "call e ClickResponse v w =
     (case applyResponse e v w of Inl x \<Rightarrow> (Throw x, w) | Inr w' \<Rightarrow> (Return JUndefined, w'))"
  by (cases v; simp add: invoke_unfold resolveImpression_def split_beta prop_of_def)+

declare call.simps [simp del]
declare call_unfold [simp]

lemma applyResponse_unfold:
  "applyResponse e v w =
     (if v = JUndefined \<or> v = JNull then Inl TypeError
      else Inr (let trackUrl = js_or (prop_of v ''tracking_url'') (prop_of v ''location'');
                    w1 = (if truthy trackUrl \<and> \<not> isProxyOrigin e trackUrl
                          then perform (ImageSrc trackUrl) w else w)
                in if truthy (prop_of v ''location'') \<and> has_replaceState e
                   then history_replaceState e JNull []
                          (addParamsToUrl e (href (win_location w))
                             (parseQueryString e (parseUrl_search e (prop_of v ''location'')))) w1
                   else w1))"
  by (cases v) (simp_all add: applyResponse_def prop_of_def Let_def)


lemma wired_applyResponse: "wired e w \<Longrightarrow> applyResponse e v w = Inr w' \<Longrightarrow> wired e w'"
  by (auto simp: applyResponse_unfold Let_def split: if_splits)

lemma wired_call [simp]: "wired e w \<Longrightarrow> wired e (snd (call e f v w))"
proof (cases f)
  case TrustResults
  assume "wired e w"
  then show ?thesis using TrustResults by (simp add: call_unfold trustResults_unfold split: sum.splits)
next
  case ClickResponse
  assume "wired e w"
  then show ?thesis using ClickResponse wired_applyResponse [of e w v]
    by (cases "applyResponse e v w") (simp_all add: call_unfold)
qed (simp_all add: call_unfold invoke_unfold)

lemma call_returns_promise:
  "fst (call e f v w) = ReturnPromise q \<Longrightarrow>
     (\<exists>u. f = VisibleInvoke u \<and> q = P_invoke) \<or> (f = ResJson \<and> q = P_json)"
  by (cases f) (auto simp: call_unfold trustResults_unfold split: sum.splits if_splits)

lemma wired_resolve_with:
  assumes "wired e w" and "(p, Then f g d) \<in> set (wiring e)" and "c \<in> set_option f \<union> set_option g"
  shows "wired e (resolve_with d (fst (call e c v w)) (snd (call e c v w)))"
proof (cases "fst (call e c v w)")
  case (ReturnPromise q)
  have "(q, Adopt d) \<in> set (wiring e)"
    using call_returns_promise [OF ReturnPromise] assms(2,3) by (auto simp: wiring_def)
  then show ?thesis using ReturnPromise assms(1) by simp
qed (use assms(1) in simp_all)

lemma wired_run_job:
  assumes "wired e w" and "job_ok e w j"
  shows "wired e (run_job e j w)"
proof (cases j)
  case (ThenableJob q d)
  then show ?thesis using assms by simp
next
  case (ReactionJob r out)
  then obtain p where p: "(p, r) \<in> set (wiring e)" using assms(2) by auto
  show ?thesis
  proof (cases r)
    case (Adopt d)
    then show ?thesis using ReactionJob assms by simp
  next
    case (AllElement d i)
    then show ?thesis using ReactionJob assms by (cases out) (simp_all add: Let_def split: option.splits)
  next
    case (Then f g d)
    show ?thesis
    proof (cases out)
      case (Fulfils v)
      show ?thesis
      proof (cases f)
        case None
        then show ?thesis using ReactionJob Then Fulfils assms(1) by simp
      next
        case (Some c)
        then show ?thesis
          using ReactionJob Then Fulfils wired_resolve_with [OF assms(1), of p f g d c v] p
          by (simp add: split_beta)
      qed
    next
      case (Rejects x)
      show ?thesis
      proof (cases g)
        case None
        then show ?thesis using ReactionJob Then Rejects assms(1) by simp
      next
        case (Some c)
        then show ?thesis
          using ReactionJob Then Rejects wired_resolve_with [OF assms(1), of p f g d c x] p
          by (simp add: split_beta)
      qed
    qed
  qed
qed

declare settle_fields(2) [simp del]

lemma state_settle [simp]:
  "state (settle q out w) p = (if p = q \<and> state w q = None then Some out else state w p)"
  by (simp add: settle_def)

definition apply_effects :: "env \<Rightarrow> jsval \<Rightarrow> world \<Rightarrow> world" where
  "apply_effects e v w =
     (let trackUrl = js_or (prop_of v ''tracking_url'') (prop_of v ''location'');
          w1 = (if truthy trackUrl \<and> \<not> isProxyOrigin e trackUrl
                then perform (ImageSrc trackUrl) w else w)
      in if truthy (prop_of v ''location'') \<and> has_replaceState e
         then history_replaceState e JNull []
                (addParamsToUrl e (href (win_location w))
                   (parseQueryString e (parseUrl_search e (prop_of v ''location'')))) w1
         else w1)"

lemma call_ClickResponse [simp]:
  "call e ClickResponse v w =
     (if v = JUndefined \<or> v = JNull then (Throw TypeError, w)
      else (Return JUndefined, apply_effects e v w))"
  by (simp add: call.simps applyResponse_unfold apply_effects_def)

declare call_unfold(9) [simp del]

lemma apply_effects_fields [simp]:
  "state (apply_effects e v w) = state w"
  "reactions (apply_effects e v w) = reactions w"
  "microtasks (apply_effects e v w) = microtasks w"
  "outstanding (apply_effects e v w) = outstanding w"
  "timers (apply_effects e v w) = timers w"
  "all_values (apply_effects e v w) = all_values w"
  "trackImpressionPromise (apply_effects e v w) = trackImpressionPromise w"
  "tokens Q (apply_effects e v w) = tokens Q w"
  by (simp_all add: apply_effects_def Let_def)

text \<open>What a job may settle, and the callback it calls.\<close>

fun reaction_target :: "reaction \<Rightarrow> pid" where
  "reaction_target (Then f g d) = d"
| "reaction_target (Adopt d) = d"
| "reaction_target (AllElement d i) = d"

fun job_callback :: "job \<Rightarrow> callback option" where
  "job_callback (ReactionJob (Then f g d) (Fulfils v)) = f"
| "job_callback (ReactionJob (Then f g d) (Rejects x)) = g"
| "job_callback j = None"

fun job_settles :: "job \<Rightarrow> pid \<Rightarrow> bool" where
  "job_settles (ReactionJob r out) p = (reaction_target r = p)"
| "job_settles (ThenableJob q d) p = False"

lemma handle_state [simp]:
  "p \<noteq> P_replaceUrlPromise \<Longrightarrow> state (snd (handleReplaceUrl e w)) p = state w p"
  "p \<noteq> P_clickUrlPromise \<Longrightarrow> state (snd (handleClickUrl e w)) p = state w p"
  by (simp_all add: handleReplaceUrl_unfold handleClickUrl_unfold)

lemma handle_frame [simp]:
  "timers (snd (handleReplaceUrl e w)) = timers w"
  "trackImpressionPromise (snd (handleReplaceUrl e w)) = trackImpressionPromise w"
  "all_values (snd (handleReplaceUrl e w)) = all_values w"
  "timers (snd (handleClickUrl e w)) = timers w"
  "trackImpressionPromise (snd (handleClickUrl e w)) = trackImpressionPromise w"
  "all_values (snd (handleClickUrl e w)) = all_values w"
  "tokens (\<lambda>r. r = R_trust) (snd (handleReplaceUrl e w)) = tokens (\<lambda>r. r = R_trust) w"
  "tokens (\<lambda>r. r = R_trust) (snd (handleClickUrl e w)) = tokens (\<lambda>r. r = R_trust) w"
  by (simp_all add: handleReplaceUrl_unfold handleClickUrl_unfold)

lemma handle_outstanding:
  "set (outstanding (snd (handleReplaceUrl e w))) \<subseteq> set (outstanding w) \<union> external"
  "set (outstanding (snd (handleClickUrl e w))) \<subseteq> set (outstanding w) \<union> external"
  by (auto simp: handleReplaceUrl_unfold handleClickUrl_unfold external_def)

lemma trust_body_frame [simp]:
  "timers (trust_body e v1 v2 w) = timers w"
  "trackImpressionPromise (trust_body e v1 v2 w) = trackImpressionPromise w"
  "tokens (\<lambda>r. r = R_trust) (trust_body e v1 v2 w) = tokens (\<lambda>r. r = R_trust) w"
  "p \<noteq> P_promise \<Longrightarrow> p \<noteq> P_replaceUrlPromise \<Longrightarrow> p \<noteq> P_clickUrlPromise \<Longrightarrow>
     state (trust_body e v1 v2 w) p = state w p"
  "d \<noteq> P_join \<Longrightarrow> all_values (trust_body e v1 v2 w) d = all_values w d"
  by (simp_all add: trust_body_def)

lemma trust_body_outstanding:
  "set (outstanding (trust_body e v1 v2 w)) \<subseteq> set (outstanding w) \<union> external"
  using handle_outstanding(1) [of e w] handle_outstanding(2) [of e "snd (handleReplaceUrl e w)"]
  by (auto simp: trust_body_def)

lemma call_frame [simp]:
  "timers (snd (call e f v w)) = timers w"
  "trackImpressionPromise (snd (call e f v w)) = trackImpressionPromise w"
  "tokens (\<lambda>r. r = R_trust) (snd (call e f v w)) = tokens (\<lambda>r. r = R_trust) w"
  by (cases f; simp add: trustResults_unfold invoke_unfold split: sum.splits)+

lemma call_outstanding:
  "set (outstanding (snd (call e f v w))) \<subseteq> set (outstanding w) \<union> external"
  using trust_body_outstanding [of e _ _ w]
  by (cases f) (auto simp: trustResults_unfold invoke_unfold external_def split: sum.splits)

lemma call_state:
  "p \<noteq> P_promise \<Longrightarrow> p \<noteq> P_replaceUrlPromise \<Longrightarrow> p \<noteq> P_clickUrlPromise \<Longrightarrow>
   state (snd (call e f v w)) p = state w p"
  by (cases f) (simp_all add: trustResults_unfold invoke_unfold split: sum.splits)

lemma call_state_other:
  "f \<noteq> TrustResults \<Longrightarrow> f \<noteq> JoinResolve \<Longrightarrow> state (snd (call e f v w)) = state w"
  by (cases f) (simp_all add: invoke_unfold)

lemma call_state_join:
  "p \<noteq> P_promise \<Longrightarrow> state (snd (call e JoinResolve v w)) p = state w p"
  by simp

lemma call_all_values:
  "f \<noteq> TrustResults \<or> d \<noteq> P_join \<Longrightarrow> all_values (snd (call e f v w)) d = all_values w d"
  by (cases f) (auto simp: trustResults_unfold invoke_unfold split: sum.splits)

lemma resolve_with_frame [simp]:
  "timers (resolve_with d r w) = timers w"
  "trackImpressionPromise (resolve_with d r w) = trackImpressionPromise w"
  "outstanding (resolve_with d r w) = outstanding w"
  "tokens Q (resolve_with d r w) = tokens Q w"
  "log (resolve_with d r w) = log w"
  "all_values (resolve_with d r w) = all_values w"
  "win_location (resolve_with d r w) = win_location w"
  by (cases r; simp)+

lemma resolve_with_state [simp]:
  "p \<noteq> d \<Longrightarrow> state (resolve_with d r w) p = state w p"
  by (cases r) simp_all

lemma run_reaction_frame:
  "timers (run_reaction e r out w) = timers w"
  "trackImpressionPromise (run_reaction e r out w) = trackImpressionPromise w"
  "tokens (\<lambda>r. r = R_trust) (run_reaction e r out w) = tokens (\<lambda>r. r = R_trust) w"
  by (cases r; cases out; simp add: split_beta Let_def split: option.splits)+

lemma run_job_frame [simp]:
  "timers (run_job e j w) = timers w"
  "trackImpressionPromise (run_job e j w) = trackImpressionPromise w"
  "tokens (\<lambda>r. r = R_trust) (run_job e j w) = tokens (\<lambda>r. r = R_trust) w"
  by (cases j; simp add: run_reaction_frame)+

lemma run_job_outstanding:
  "set (outstanding (run_job e j w)) \<subseteq> set (outstanding w) \<union> external"
proof -
  have "set (outstanding (run_reaction e r out w)) \<subseteq> set (outstanding w) \<union> external" for r out
    using call_outstanding [of e _ _ w]
    by (cases r; cases out) (auto simp: split_beta Let_def split: option.splits)
  then show ?thesis by (cases j) auto
qed

text \<open>A job changes the state of a promise only if it settles it, or calls a callback
  that resolves it.\<close>

lemma run_job_state:
  assumes "\<not> job_settles j p"
    and "p = P_promise \<longrightarrow> job_callback j \<noteq> Some TrustResults \<and> job_callback j \<noteq> Some JoinResolve"
    and "p = P_replaceUrlPromise \<or> p = P_clickUrlPromise \<longrightarrow> job_callback j \<noteq> Some TrustResults"
  shows "state (run_job e j w) p = state w p"
proof (cases j)
  case (ThenableJob q d)
  then show ?thesis by simp
next
  case (ReactionJob r out)
  show ?thesis
  proof (cases r)
    case (Adopt d)
    then show ?thesis using ReactionJob assms(1) by simp
  next
    case (AllElement d i)
    then show ?thesis using ReactionJob assms(1)
      by (cases out) (simp_all add: Let_def split: option.splits)
  next
    case (Then f g d)
    have c: "state (snd (call e c v w)) p = state w p" if "job_callback j = Some c" for c v
    proof (cases "c = TrustResults \<or> c = JoinResolve")
      case True
      then show ?thesis using that assms(2,3) call_state [of p e c v w] by auto
    next
      case False
      then show ?thesis using call_state_other [of c e v w] by simp
    qed
    show ?thesis
      using ReactionJob Then assms(1) c
      by (cases out; cases f; cases g) (simp_all add: split_beta)
  qed
qed

lemma run_job_all_values:
  assumes "\<not> (\<exists>i out. j = ReactionJob (AllElement d i) out)"
    and "d = P_join \<longrightarrow> job_callback j \<noteq> Some TrustResults"
  shows "all_values (run_job e j w) d = all_values w d"
proof (cases j)
  case (ThenableJob q d)
  then show ?thesis by simp
next
  case (ReactionJob r out)
  have c: "all_values (snd (call e c v w)) d = all_values w d" if "job_callback j = Some c" for c v
    using that assms(2) call_all_values [of c d e v w] by auto
  show ?thesis
  proof (cases r)
    case (Adopt d')
    then show ?thesis using ReactionJob by simp
  next
    case (AllElement d' i)
    then show ?thesis using ReactionJob assms(1)
      by (cases out) (auto simp: Let_def split: option.splits)
  next
    case (Then f g d')
    then show ?thesis
      using ReactionJob c
      by (cases out; cases f; cases g) (simp_all add: split_beta)
  qed
qed

text \<open>
  How the promise store moves: a settled promise stays as it is, a reaction attached to
  a pending promise stays attached or becomes a queued job carrying the outcome, queued
  jobs stay queued, and the log only grows.
\<close>

definition evolves :: "world \<Rightarrow> world \<Rightarrow> bool" where
  "evolves w w' =
     ((\<forall>p out. state w p = Some out \<longrightarrow> state w' p = Some out)
      \<and> (\<forall>p r. (p, r) \<in> set (reactions w) \<longrightarrow> state w p = None \<longrightarrow>
             (state w' p = None \<and> (p, r) \<in> set (reactions w'))
             \<or> (\<exists>out. state w' p = Some out \<and> ReactionJob r out \<in> set (microtasks w')))
      \<and> set (microtasks w) \<subseteq> set (microtasks w')
      \<and> prefix (log w) (log w'))"

lemma evolves_refl [simp]: "evolves w w"
  by (simp add: evolves_def)

lemma evolves_cong:
  "state w2 = state w1 \<Longrightarrow> reactions w2 = reactions w1 \<Longrightarrow> microtasks w2 = microtasks w1 \<Longrightarrow>
   log w2 = log w1 \<Longrightarrow> evolves w w2 = evolves w w1"
  by (simp add: evolves_def)

lemma evolves_fields [simp]:
  "evolves w (w1\<lparr>all_values := a\<rparr>) = evolves w w1"
  "evolves w (w1\<lparr>outstanding := os\<rparr>) = evolves w w1"
  "evolves w (w1\<lparr>timers := ts\<rparr>) = evolves w w1"
  "evolves w (w1\<lparr>trackImpressionPromise := tp\<rparr>) = evolves w w1"
  by (rule evolves_cong; simp)+

lemma evolves_trans:
  assumes "evolves w w1" and "evolves w1 w2"
  shows "evolves w w2"
  unfolding evolves_def
proof (intro conjI allI impI)
  fix p out assume "state w p = Some out"
  then show "state w2 p = Some out" using assms by (simp add: evolves_def)
next
  fix p r assume a: "(p, r) \<in> set (reactions w)" "state w p = None"
  then consider "state w1 p = None \<and> (p, r) \<in> set (reactions w1)"
    | o' where "state w1 p = Some o'" "ReactionJob r o' \<in> set (microtasks w1)"
    using assms(1) unfolding evolves_def by blast
  then show "state w2 p = None \<and> (p, r) \<in> set (reactions w2) \<or>
     (\<exists>out. state w2 p = Some out \<and> ReactionJob r out \<in> set (microtasks w2))"
  proof cases
    case 1
    then show ?thesis using assms(2) unfolding evolves_def by blast
  next
    case 2
    then have "state w2 p = Some o'" "ReactionJob r o' \<in> set (microtasks w2)"
      using assms(2) unfolding evolves_def by auto
    then show ?thesis by blast
  qed
next
  show "set (microtasks w) \<subseteq> set (microtasks w2)"
    using assms unfolding evolves_def by blast
  show "prefix (log w) (log w2)"
    using assms unfolding evolves_def by (meson prefix_order.trans)
qed

lemma evolves_step_log:
  "state w2 = state w1 \<Longrightarrow> reactions w2 = reactions w1 \<Longrightarrow>
   microtasks w2 = microtasks w1 \<Longrightarrow> log w2 = log w1 @ xs \<Longrightarrow> evolves w1 w2"
  by (simp add: evolves_def)

lemma evolves_perform [simp]:
  "evolves w w1 \<Longrightarrow> evolves w (perform x w1)"
  "evolves w w1 \<Longrightarrow> evolves w (viewer_replaceUrl e v w1)"
  "evolves w w1 \<Longrightarrow> evolves w (set_location_hash e h w1)"
  "evolves w w1 \<Longrightarrow> evolves w (history_replaceState e s t u w1)"
  "evolves w w1 \<Longrightarrow> evolves w (snd (external_call x p w1))"
  by (erule evolves_trans, rule evolves_step_log; simp)+

lemma evolves_enqueue [simp]: "evolves w w1 \<Longrightarrow> evolves w (enqueue j w1)"
  by (erule evolves_trans) (auto simp: evolves_def)

lemma evolves_subscribe [simp]: "evolves w w1 \<Longrightarrow> evolves w (subscribe p r w1)"
  by (erule evolves_trans, cases "state w1 p") (auto simp: evolves_def)

lemma evolves_settle1: "evolves w1 (settle q out w1)"
proof (cases "state w1 q")
  case (Some o')
  then have "settle q out w1 = w1" by (simp add: settle_def)
  then show ?thesis by simp
next
  case None
  show ?thesis
    unfolding evolves_def
  proof (intro conjI allI impI)
    fix p o' assume "state w1 p = Some o'"
    then show "state (settle q out w1) p = Some o'" using None by auto
  next
    fix p r assume a: "(p, r) \<in> set (reactions w1)" "state w1 p = None"
    show "state (settle q out w1) p = None \<and> (p, r) \<in> set (reactions (settle q out w1)) \<or>
           (\<exists>out'. state (settle q out w1) p = Some out' \<and>
                  ReactionJob r out' \<in> set (microtasks (settle q out w1)))"
      using a None by (cases "p = q") (auto intro!: image_eqI [where x = "(q, r)"])
  next
    show "set (microtasks w1) \<subseteq> set (microtasks (settle q out w1))"
      by auto
    show "prefix (log w1) (log (settle q out w1))"
      by simp
  qed
qed

lemma evolves_settle [simp]: "evolves w w1 \<Longrightarrow> evolves w (settle q out w1)"
  by (erule evolves_trans) (rule evolves_settle1)

lemma evolves_handle [simp]:
  "evolves w w1 \<Longrightarrow> evolves w (snd (handleReplaceUrl e w1))"
  "evolves w w1 \<Longrightarrow> evolves w (snd (handleClickUrl e w1))"
  by (simp_all add: handleReplaceUrl_unfold handleClickUrl_unfold)

lemma evolves_trust_body [simp]: "evolves w w1 \<Longrightarrow> evolves w (trust_body e v1 v2 w1)"
  by (simp add: trust_body_def)

lemma evolves_apply_effects [simp]: "evolves w w1 \<Longrightarrow> evolves w (apply_effects e v w1)"
  by (simp add: apply_effects_def Let_def)

lemma evolves_call [simp]: "evolves w w1 \<Longrightarrow> evolves w (snd (call e f v w1))"
  by (cases f) (simp_all add: trustResults_unfold invoke_unfold split: sum.splits)

lemma evolves_resolve_with [simp]: "evolves w w1 \<Longrightarrow> evolves w (resolve_with d r w1)"
  by (cases r) simp_all

lemma evolves_run_reaction [simp]: "evolves w w1 \<Longrightarrow> evolves w (run_reaction e r out w1)"
  by (cases r; cases out) (simp_all add: split_beta Let_def split: option.splits)

lemma evolves_run_job [simp]: "evolves w w1 \<Longrightarrow> evolves w (run_job e j w1)"
  by (cases j) simp_all

lemma evolves_state: "evolves w w' \<Longrightarrow> state w p = Some out \<Longrightarrow> state w' p = Some out"
  by (simp add: evolves_def)

lemma evolves_state_neq: "evolves w w' \<Longrightarrow> state w p \<noteq> None \<Longrightarrow> state w' p \<noteq> None"
  by (auto simp: evolves_def)

lemma link_subscribe [simp]: "link (subscribe p r w) p r d"
  by (cases "state w p") (simp_all add: link_def)

lemma link_evolves:
  assumes "link w p r d" and "evolves w w'" and "d \<Longrightarrow> d'"
  shows "link w' p r d'"
proof (cases "state w p")
  case None
  then have "(p, r) \<in> set (reactions w)" using assms(1) by (simp add: link_def)
  then have "state w' p = None \<and> (p, r) \<in> set (reactions w') \<or>
     (\<exists>out. state w' p = Some out \<and> ReactionJob r out \<in> set (microtasks w'))"
    using assms(2) None unfolding evolves_def by blast
  then show ?thesis unfolding link_def by auto
next
  case (Some out)
  then have "state w' p = Some out" using assms(2) by (simp add: evolves_def)
  moreover have "ReactionJob r out \<in> set (microtasks w) \<or> d"
    using assms(1) Some by (simp add: link_def)
  moreover have "set (microtasks w) \<subseteq> set (microtasks w')"
    using assms(2) by (simp add: evolves_def)
  ultimately show ?thesis using assms(3) unfolding link_def by auto
qed

lemma link_step:
  assumes "link w p r d" and "microtasks w = j # js" and "evolves (w\<lparr>microtasks := js\<rparr>) w'"
    and "d \<Longrightarrow> d'" and "\<And>out. state w p = Some out \<Longrightarrow> j = ReactionJob r out \<Longrightarrow> d'"
  shows "link w' p r d'"
proof (cases "state w p")
  case None
  then have "link (w\<lparr>microtasks := js\<rparr>) p r d" using assms(1) by (simp add: link_def)
  then show ?thesis using assms(3,4) by (rule link_evolves)
next
  case (Some out)
  then have s: "state w' p = Some out" using assms(3) by (simp add: evolves_def)
  show ?thesis
  proof (cases "j = ReactionJob r out")
    case True
    then show ?thesis using assms(5) Some s by (simp add: link_def)
  next
    case False
    then have "link (w\<lparr>microtasks := js\<rparr>) p r d"
      using assms(1,2) Some by (auto simp: link_def)
    then show ?thesis using assms(3,4) by (rule link_evolves)
  qed
qed

lemma evolves_fire_timers [simp]: "timers w1 = [] \<or> timers w1 = [timer0] \<Longrightarrow> evolves w w1 \<Longrightarrow> evolves w (fire_timers w1)"
  by (auto simp: fire_timers_def timer0_def)

lemma evolves_occur: "timers w = [] \<or> timers w = [timer0] \<Longrightarrow> evolves w (occur ev w)"
  by (cases ev) simp_all

text \<open>The wiring read backwards: which reactions may settle a given promise.\<close>

lemma wiring_target:
  assumes "(p, r) \<in> set (wiring e)"
  shows "reaction_target r \<noteq> P_promise"
    and "reaction_target r \<notin> external"
    and "reaction_target r = P_trackImpression \<Longrightarrow> p = P_timeout \<and> r = R_catch"
    and "reaction_target r = P_timeout \<Longrightarrow> p = P_promise \<and> r = Adopt P_timeout"
    and "reaction_target r = P_trustThen \<Longrightarrow> p = P_trustAll \<and> r = R_trust"
    and "reaction_target r = P_joinThen \<Longrightarrow> p = P_join \<and> r = R_join"
    and "reaction_target r = P_trustAll \<Longrightarrow>
           (p = P_isTrustedViewer \<and> r = AllElement P_trustAll 0)
           \<or> (p = P_isTrustedReferrer \<and> r = AllElement P_trustAll 1)"
    and "reaction_target r = P_join \<Longrightarrow>
           (p = P_replaceUrlPromise \<and> r = AllElement P_join 0)
           \<or> (p = P_clickUrlPromise \<and> r = AllElement P_join 1)"
  using assms by (auto simp: wiring_def external_def)

lemma wiring_callback:
  assumes "(p, Then f g d) \<in> set (wiring e)"
  shows "f = Some TrustResults \<or> g = Some TrustResults \<Longrightarrow> p = P_trustAll \<and> Then f g d = R_trust"
    and "f = Some JoinResolve \<or> g = Some JoinResolve \<Longrightarrow> p = P_join \<and> Then f g d = R_join"
    and "f = Some (VisibleInvoke u) \<or> g = Some (VisibleInvoke u) \<Longrightarrow>
           p = P_whenFirstVisible \<and> Then f g d = R_visible u \<and> u = click_of e"
  using assms by (auto simp: wiring_def)

lemma wiring_source:
  "(p, r) \<in> set (wiring e) \<Longrightarrow> (p', r) \<in> set (wiring e) \<Longrightarrow> p' = p"
  by (auto simp: wiring_def)

lemma job_ok_settles:
  assumes "job_ok e w j" and "job_settles j d"
  shows "\<exists>p r out. j = ReactionJob r out \<and> (p, r) \<in> set (wiring e) \<and> reaction_target r = d
    \<and> state w p = Some out"
  using assms by (cases j) auto

lemma job_ok_callback:
  assumes "job_ok e w j" and "job_callback j = Some c"
  obtains p f g d out where "j = ReactionJob (Then f g d) out" "(p, Then f g d) \<in> set (wiring e)"
    "state w p = Some out" "f = Some c \<or> g = Some c"
    "(\<exists>v. out = Fulfils v \<and> f = Some c) \<or> (\<exists>x. out = Rejects x \<and> g = Some c)"
proof (cases j)
  case (ThenableJob q d)
  then show ?thesis using assms by simp
next
  case (ReactionJob r out)
  then show ?thesis using assms that
    by (cases r; cases out) auto
qed

lemma resolve_with_settled:
  "(\<And>q. r \<noteq> ReturnPromise q) \<Longrightarrow> state (resolve_with d r w) d \<noteq> None"
  by (cases r) auto

lemma then_settled:
  assumes "\<And>u. job_callback (ReactionJob (Then f g d) out) \<noteq> Some (VisibleInvoke u)"
    and "job_callback (ReactionJob (Then f g d) out) \<noteq> Some ResJson"
  shows "state (run_reaction e (Then f g d) out w) d \<noteq> None"
proof -
  have c: "state (resolve_with d (fst (call e c v w)) (snd (call e c v w))) d \<noteq> None"
    if "job_callback (ReactionJob (Then f g d) out) = Some c" for c v
  proof (rule resolve_with_settled)
    fix q show "fst (call e c v w) \<noteq> ReturnPromise q"
      using call_returns_promise [of e c v w q] assms that by auto
  qed
  show ?thesis
    using c by (cases out; cases f; cases g) (auto simp: split_beta)
qed

lemma fire_timers_unfold:
  "timers w = [] \<or> timers w = [timer0] \<Longrightarrow>
   fire_timers w =
     (if timers w = [] then w\<lparr>timers := []\<rparr>
      else settle P_timeout (Rejects (JError ''TrackImpressionPromise timeout'')) (w\<lparr>timers := []\<rparr>))"
  by (auto simp: fire_timers_def timer0_def)

definition inv_core :: "env \<Rightarrow> world \<Rightarrow> bool" where
  "inv_core e w =
     (wired e w
      \<and> (timers w = [] \<or> timers w = [timer0])
      \<and> set (outstanding w) \<subseteq> external
      \<and> trackImpressionPromise w = Some P_trackImpression
      \<and> tokens (\<lambda>r. r = R_trust) w + (if state w P_trustThen = None then 0 else 1) = 1)"

lemma inv_core_init: "inv_core e (maybeTrackImpression e (init loc))"
  by (simp add: maybeTrackImpression_unfold inv_core_def wired_def init_def external_def tokens_def)

text \<open>One job: the head of the queue is taken off and run.\<close>

lemma job_step_Cons:
  "microtasks w = j # js \<Longrightarrow> job_step e w = run_job e j (w\<lparr>microtasks := js\<rparr>)"
  by (simp add: job_step_def)

lemma inv_core_job:
  assumes "inv_core e w" and "microtasks w = j # js"
  shows "inv_core e (run_job e j (w\<lparr>microtasks := js\<rparr>))"
proof -
  let ?w0 = "w\<lparr>microtasks := js\<rparr>"
  let ?w' = "run_job e j ?w0"
  have w0: "wired e ?w0" and ok: "job_ok e w j"
    using wired_pop [of e w j js] assms by (simp_all add: inv_core_def)
  have ok0: "job_ok e ?w0 j" using ok job_ok_cong [of ?w0 w e j] by simp
  have 1: "wired e ?w'" using w0 ok0 by (rule wired_run_job)
  have 2: "timers ?w' = [] \<or> timers ?w' = [timer0]" using assms(1) by (simp add: inv_core_def)
  have 3: "set (outstanding ?w') \<subseteq> external"
    using run_job_outstanding [of e j ?w0] assms(1) by (auto simp: inv_core_def)
  have 4: "trackImpressionPromise ?w' = Some P_trackImpression"
    using assms(1) by (simp add: inv_core_def)
  have tok: "tokens (\<lambda>r. r = R_trust) w + (if state w P_trustThen = None then 0 else 1) = 1"
    using assms(1) by (simp add: inv_core_def)
  have 5: "tokens (\<lambda>r. r = R_trust) ?w' + (if state ?w' P_trustThen = None then 0 else 1) = 1"
  proof (cases "job_settles j P_trustThen")
    case True
    from job_ok_settles [OF ok this]
    obtain p r out where j: "j = ReactionJob r out" "(p, r) \<in> set (wiring e)"
        "reaction_target r = P_trustThen"
      by blast
    then have r: "r = R_trust" using wiring_target(5) [of p r e] by simp
    have "tokens (\<lambda>r. r = R_trust) w = tokens (\<lambda>r. r = R_trust) ?w0 + 1"
      using tokens_pop [OF assms(2), of "\<lambda>r. r = R_trust"] j(1) r by simp
    then have "tokens (\<lambda>r. r = R_trust) ?w0 = 0" using tok by (simp split: if_splits)
    moreover have "state ?w' P_trustThen \<noteq> None"
      using then_settled [of "Some TrustResults" None P_trustThen out e ?w0] j(1) r
      by (cases out) auto
    ultimately show ?thesis by simp
  next
    case False
    have "\<And>out. j \<noteq> ReactionJob R_trust out" using False by auto
    then have "tokens (\<lambda>r. r = R_trust) w = tokens (\<lambda>r. r = R_trust) ?w0"
      using tokens_pop [OF assms(2), of "\<lambda>r. r = R_trust"] by (auto split: job.splits)
    moreover have "state ?w' P_trustThen = state ?w0 P_trustThen"
      using False by (intro run_job_state) simp_all
    ultimately show ?thesis using tok by simp
  qed
  show ?thesis using 1 2 3 4 5 by (simp add: inv_core_def)
qed

lemma inv_core_occur:
  assumes "inv_core e w"
  shows "inv_core e (occur ev w)"
proof (cases ev)
  case (Settle p out)
  show ?thesis
  proof (cases "p \<in> set (outstanding w)")
    case True
    then have "p \<in> external" using assms by (auto simp: inv_core_def)
    then have "p \<noteq> P_trustThen" by (auto simp: external_def)
    then show ?thesis using assms Settle True by (auto simp: inv_core_def)
  next
    case False
    then show ?thesis using assms Settle by simp
  qed
next
  case TimerFire
  have t: "timers w = [] \<or> timers w = [timer0]" using assms by (simp add: inv_core_def)
  show ?thesis
    using assms TimerFire by (auto simp: fire_timers_unfold [OF t] inv_core_def)
qed

definition inv_session :: "world \<Rightarrow> bool" where
  "inv_session w =
     ((state w P_promise = None \<or> state w P_promise = Some (Fulfils JUndefined))
      \<and> (\<forall>x. state w P_trackImpression \<noteq> Some (Rejects x))
      \<and> link w P_timeout R_catch (state w P_trackImpression \<noteq> None)
      \<and> (timers w \<noteq> [] \<or> state w P_timeout \<noteq> None)
      \<and> link w P_promise (Adopt P_timeout) (state w P_timeout \<noteq> None)
      \<and> (state w P_timeout \<noteq> None \<longrightarrow> state w P_promise \<noteq> None \<or> timers w = [])
      \<and> (state w P_trackImpression \<noteq> None \<longrightarrow> state w P_timeout \<noteq> None))"

lemma inv_session_init: "inv_session (maybeTrackImpression e (init loc))"
  by (simp add: maybeTrackImpression_unfold inv_session_def link_def init_def)

lemma call_state_promise:
  "state (snd (call e f v w)) P_promise = state w P_promise
   \<or> state (snd (call e f v w)) P_promise = Some (Fulfils JUndefined)"
  by (cases f) (simp_all add: trustResults_unfold trust_body_def invoke_unfold split: sum.splits)

lemma run_job_state_promise:
  assumes "\<not> job_settles j P_promise"
  shows "state (run_job e j w) P_promise = state w P_promise
   \<or> state (run_job e j w) P_promise = Some (Fulfils JUndefined)"
proof (cases j)
  case (ThenableJob q d)
  then show ?thesis by simp
next
  case (ReactionJob r out)
  show ?thesis
  proof (cases r)
    case (Adopt d)
    then show ?thesis using ReactionJob assms by simp
  next
    case (AllElement d i)
    then show ?thesis using ReactionJob assms by (cases out) (simp_all add: Let_def split: option.splits)
  next
    case (Then f g d)
    then show ?thesis
      using ReactionJob assms call_state_promise [of e _ _ w]
      by (cases out; cases f; cases g) (simp_all add: split_beta)
  qed
qed

lemma inv_session_job:
  assumes "inv_core e w" and "inv_session w" and "microtasks w = j # js"
  shows "inv_session (run_job e j (w\<lparr>microtasks := js\<rparr>))"
proof -
  let ?w0 = "w\<lparr>microtasks := js\<rparr>"
  let ?w' = "run_job e j ?w0"
  have ok: "job_ok e w j"
    using wired_pop [of e w j js] assms by (simp_all add: inv_core_def)
  have ev: "evolves ?w0 ?w'" by simp
  have st0: "state ?w0 = state w" by simp
  have tm: "timers ?w' = timers w" by simp
  have np: "\<not> job_settles j P_promise"
  proof
    assume "job_settles j P_promise"
    from job_ok_settles [OF ok this]
    obtain p r where "(p, r) \<in> set (wiring e)" "reaction_target r = P_promise"
      by blast
    then show False using wiring_target(1) [of p r e] by simp
  qed
  have b0: "state ?w' P_promise = None \<or> state ?w' P_promise = Some (Fulfils JUndefined)"
    using run_job_state_promise [OF np, of e ?w0] assms(2) by (auto simp: inv_session_def)
  have track: "state ?w' P_trackImpression = state w P_trackImpression
     \<or> (state w P_timeout \<noteq> None \<and> (\<exists>v. state ?w' P_trackImpression = Some (Fulfils v)))"
  proof (cases "job_settles j P_trackImpression")
    case True
    from job_ok_settles [OF ok this]
    obtain p r out where j: "j = ReactionJob r out" "(p, r) \<in> set (wiring e)"
        "reaction_target r = P_trackImpression" "state w p = Some out"
      by blast
    then have r: "r = R_catch" "p = P_timeout" using wiring_target(3) [of p r e] by simp_all
    show ?thesis using j r by (cases out) auto
  next
    case False
    then show ?thesis using run_job_state [of j P_trackImpression e ?w0] by simp
  qed
  have b1: "\<forall>x. state ?w' P_trackImpression \<noteq> Some (Rejects x)"
    using track assms(2) by (auto simp: inv_session_def)
  have b6: "state ?w' P_trackImpression \<noteq> None \<longrightarrow> state ?w' P_timeout \<noteq> None"
    using track assms(2) evolves_state_neq [OF ev, of P_timeout] by (auto simp: inv_session_def)
  have b2: "link ?w' P_timeout R_catch (state ?w' P_trackImpression \<noteq> None)"
  proof (rule link_step [OF _ assms(3) ev])
    show "link w P_timeout R_catch (state w P_trackImpression \<noteq> None)"
      using assms(2) by (simp add: inv_session_def)
    show "state w P_trackImpression \<noteq> None \<Longrightarrow> state ?w' P_trackImpression \<noteq> None"
      using evolves_state_neq [OF ev, of P_trackImpression] by simp
    fix out assume "j = ReactionJob R_catch out"
    then show "state ?w' P_trackImpression \<noteq> None"
      using then_settled [of None "Some WarnTimeout" P_trackImpression out e ?w0]
      by (cases out) auto
  qed
  have b3: "timers ?w' \<noteq> [] \<or> state ?w' P_timeout \<noteq> None"
    using assms(2) evolves_state_neq [OF ev, of P_timeout] by (auto simp: inv_session_def)
  have b4: "link ?w' P_promise (Adopt P_timeout) (state ?w' P_timeout \<noteq> None)"
  proof (rule link_step [OF _ assms(3) ev])
    show "link w P_promise (Adopt P_timeout) (state w P_timeout \<noteq> None)"
      using assms(2) by (simp add: inv_session_def)
    show "state w P_timeout \<noteq> None \<Longrightarrow> state ?w' P_timeout \<noteq> None"
      using evolves_state_neq [OF ev, of P_timeout] by simp
    fix out assume "j = ReactionJob (Adopt P_timeout) out"
    then show "state ?w' P_timeout \<noteq> None" by simp
  qed
  have b5: "state ?w' P_timeout \<noteq> None \<longrightarrow> state ?w' P_promise \<noteq> None \<or> timers ?w' = []"
  proof (cases "job_settles j P_timeout")
    case True
    from job_ok_settles [OF ok this]
    obtain p r out where j: "j = ReactionJob r out" "(p, r) \<in> set (wiring e)"
        "reaction_target r = P_timeout" "state w p = Some out"
      by blast
    then have "p = P_promise" using wiring_target(4) [of p r e] by simp
    then have "state ?w' P_promise \<noteq> None"
      using j(4) evolves_state_neq [OF ev, of P_promise] by simp
    then show ?thesis by simp
  next
    case False
    then have "state ?w' P_timeout = state w P_timeout"
      using run_job_state [of j P_timeout e ?w0] by simp
    then show ?thesis
      using assms(2) evolves_state_neq [OF ev, of P_promise] by (auto simp: inv_session_def)
  qed
  show ?thesis using b0 b1 b2 b3 b4 b5 b6 unfolding inv_session_def by blast
qed

lemma inv_session_occur:
  assumes "inv_core e w" and "inv_session w"
  shows "inv_session (occur ev w)"
proof -
  have t: "timers w = [] \<or> timers w = [timer0]" using assms(1) by (simp add: inv_core_def)
  have ev: "evolves w (occur ev w)" using t by (rule evolves_occur)
  have b2: "link (occur ev w) P_timeout R_catch (state w P_trackImpression \<noteq> None)"
    and b4: "link (occur ev w) P_promise (Adopt P_timeout) (state w P_timeout \<noteq> None)"
    using assms(2) link_evolves [OF _ ev] by (auto simp: inv_session_def)
  show ?thesis
  proof (cases ev)
    case (Settle p out)
    show ?thesis
    proof (cases "p \<in> set (outstanding w)")
      case True
      then have "p \<in> external" using assms(1) by (auto simp: inv_core_def)
      then have p: "p \<noteq> P_promise" "p \<noteq> P_timeout" "p \<noteq> P_trackImpression"
        by (auto simp: external_def)
      have s: "state (occur ev w) P_promise = state w P_promise"
        "state (occur ev w) P_timeout = state w P_timeout"
        "state (occur ev w) P_trackImpression = state w P_trackImpression"
        "timers (occur ev w) = timers w"
        using Settle True p by simp_all
      show ?thesis using assms(2) b2 b4 unfolding inv_session_def s by blast
    next
      case False
      then show ?thesis using assms(2) Settle by simp
    qed
  next
    case TimerFire
    have s: "state (occur ev w) P_promise = state w P_promise"
      "state (occur ev w) P_trackImpression = state w P_trackImpression"
      "timers (occur ev w) = []"
      "state (occur ev w) P_timeout \<noteq> None"
      using TimerFire assms(2) by (auto simp: fire_timers_unfold [OF t] inv_session_def)
    have b2': "link (occur ev w) P_timeout R_catch (state (occur ev w) P_trackImpression \<noteq> None)"
      using b2 s by simp
    have b4': "link (occur ev w) P_promise (Adopt P_timeout) (state (occur ev w) P_timeout \<noteq> None)"
      using b4 s unfolding link_def by (auto split: option.splits)
    show ?thesis using assms(2) b2' b4' s unfolding inv_session_def by auto
  qed
qed

text \<open>An invariant of jobs and events holds after every run, and every run ends quiescent.\<close>

lemma deliver_preserves:
  assumes "\<And>w j js. I w \<Longrightarrow> microtasks w = j # js \<Longrightarrow> I (run_job e j (w\<lparr>microtasks := js\<rparr>))"
    and "\<And>w. I w \<Longrightarrow> I (occur ev w)" and "I w"
  shows "I (deliver e w ev)"
  unfolding deliver_def
proof (rule run_microtasks_preserves)
  show "I (occur ev w)" using assms(2,3) by simp
  fix w' assume "I w'" "microtasks w' \<noteq> []"
  then show "I (job_step e w')"
    using assms(1) [of w'] by (cases "microtasks w'") (simp_all add: job_step_def)
qed

lemma run_snoc: "run e loc (evs @ [ev]) = deliver e (run e loc evs) ev"
  by (simp add: run_def)

lemma run_preserves:
  assumes "I (maybeTrackImpression e (init loc))"
    and "\<And>w j js. I w \<Longrightarrow> microtasks w = j # js \<Longrightarrow> I (run_job e j (w\<lparr>microtasks := js\<rparr>))"
    and "\<And>w ev. I w \<Longrightarrow> I (occur ev w)"
  shows "I (run e loc evs)"
proof (induction evs rule: rev_induct)
  case Nil
  have "I (start e loc)"
    unfolding start_def
  proof (rule run_microtasks_preserves)
    show "I (maybeTrackImpression e (init loc))" by (rule assms(1))
    fix w' assume "I w'" "microtasks w' \<noteq> []"
    then show "I (job_step e w')"
      using assms(2) [of w'] by (cases "microtasks w'") (simp_all add: job_step_def)
  qed
  then show ?case by (simp add: run_def)
next
  case (snoc ev evs)
  show ?case
    unfolding run_snoc using assms(2) assms(3) snoc by (rule deliver_preserves)
qed

lemma run_quiescent: "microtasks (run e loc evs) = []"
proof (cases evs rule: rev_cases)
  case Nil
  then show ?thesis by (simp add: run_def start_def run_microtasks_quiescent)
next
  case (snoc ys y)
  then show ?thesis by (simp add: run_snoc deliver_def run_microtasks_quiescent)
qed

definition inv1 :: "env \<Rightarrow> world \<Rightarrow> bool" where
  "inv1 e w = (inv_core e w \<and> inv_session w)"

lemma inv1_run: "inv1 e (run e loc evs)"
proof (rule run_preserves)
  show "inv1 e (maybeTrackImpression e (init loc))"
    by (simp add: inv1_def inv_core_init inv_session_init)
  show "\<And>w j js. inv1 e w \<Longrightarrow> microtasks w = j # js \<Longrightarrow> inv1 e (run_job e j (w\<lparr>microtasks := js\<rparr>))"
    by (simp add: inv1_def inv_core_job inv_session_job)
  show "\<And>w ev. inv1 e w \<Longrightarrow> inv1 e (occur ev w)"
    by (auto simp: inv1_def inv_core_occur intro: inv_session_occur)
qed

lemma timers_run_microtasks: "timers (run_microtasks e w) = timers w"
proof -
  have "timers (run_microtasks e w) = ts" if "timers w = ts" for ts
  proof (rule run_microtasks_preserves [where I = "\<lambda>w :: world. timers w = ts"])
    show "timers w = ts" by (rule that)
    fix w' :: world assume "timers w' = ts" "microtasks w' \<noteq> []"
    then show "timers (job_step e w') = ts"
      by (cases "microtasks w'") (simp_all add: job_step_def)
  qed
  then show ?thesis by simp
qed

lemma timers_run: "timers (run e loc evs) = (if TimerFire \<in> set evs then [] else [timer0])"
proof (induction evs rule: rev_induct)
  case Nil
  show ?case
    by (simp add: run_def start_def timers_run_microtasks maybeTrackImpression_unfold init_def)
next
  case (snoc ev evs)
  have t: "timers (run e loc evs) = [] \<or> timers (run e loc evs) = [timer0]"
    using inv1_run [of e loc evs] by (simp add: inv1_def inv_core_def)
  show ?case
  proof (cases ev)
    case (Settle p out)
    then show ?thesis using snoc by (simp add: run_snoc deliver_def timers_run_microtasks)
  next
    case TimerFire
    then show ?thesis
      using snoc by (simp add: run_snoc deliver_def timers_run_microtasks fire_timers_unfold [OF t])
  qed
qed

text \<open>
  Claim C1. After \<^verbatim>\<open>maybeTrackImpression(win)\<close>, whatever the viewer, the network and
  the timer do and in whatever order, the handle that \<^verbatim>\<open>getTrackImpressionPromise\<close>
  returns is the promise of the \<^verbatim>\<open>.catch\<close>, that promise is never rejected, and once
  the delay of the timeout has elapsed it is fulfilled.
\<close>

theorem session_promise_never_rejects:
  "getTrackImpressionPromise (run e loc evs) = Inr P_trackImpression
   \<and> (\<forall>x. state (run e loc evs) P_trackImpression \<noteq> Some (Rejects x))
   \<and> (TimerFire \<in> set evs \<longrightarrow>
        (\<exists>v. state (run e loc evs) P_trackImpression = Some (Fulfils v)))"
proof -
  let ?w = "run e loc evs"
  have c: "inv_core e ?w" and s: "inv_session ?w"
    using inv1_run [of e loc evs] by (simp_all add: inv1_def)
  have q: "microtasks ?w = []" by (rule run_quiescent)
  have 1: "getTrackImpressionPromise ?w = Inr P_trackImpression"
    using c by (simp add: getTrackImpressionPromise_def dev_assert_def inv_core_def)
  have 2: "\<forall>x. state ?w P_trackImpression \<noteq> Some (Rejects x)"
    using s by (simp add: inv_session_def)
  have 3: "\<exists>v. state ?w P_trackImpression = Some (Fulfils v)" if "TimerFire \<in> set evs"
  proof -
    have "timers ?w = []" using that by (simp add: timers_run)
    then have "state ?w P_timeout \<noteq> None" using s by (simp add: inv_session_def)
    moreover have "link ?w P_timeout R_catch (state ?w P_trackImpression \<noteq> None)"
      using s by (simp add: inv_session_def)
    ultimately have "state ?w P_trackImpression \<noteq> None"
      using q by (auto simp: link_def)
    then obtain out where out: "state ?w P_trackImpression = Some out" by auto
    then show ?thesis using 2 by (cases out) auto
  qed
  show ?thesis using 1 2 3 by blast
qed

theorem session_promise_never_rejects_witness:
  "TimerFire \<in> set [Settle P_isTrustedViewer (Rejects JNull), TimerFire]
   \<and> getTrackImpressionPromise
        (run example_env example_location [Settle P_isTrustedViewer (Rejects JNull), TimerFire])
       = Inr P_trackImpression
   \<and> (\<exists>v. state (run example_env example_location
                  [Settle P_isTrustedViewer (Rejects JNull), TimerFire]) P_trackImpression
            = Some (Fulfils v))"
  using session_promise_never_rejects [of example_env example_location
      "[Settle P_isTrustedViewer (Rejects JNull), TimerFire]"]
  by simp

section \<open>Concrete sessions\<close>

text \<open>Running a concrete session: the queue is run job by job.\<close>

lemma run_microtasks_eval:
  "run_microtasks e w =
     (case microtasks w of [] \<Rightarrow> w | j # js \<Rightarrow> run_microtasks e (run_job e j (w\<lparr>microtasks := js\<rparr>)))"
  by (cases "microtasks w") (simp_all add: run_microtasks_Nil run_microtasks_Cons)

lemma start_eq: "start e loc = maybeTrackImpression e (init loc)"
  by (simp add: start_def run_microtasks_Nil maybeTrackImpression_unfold init_def)

lemmas run_eval = run_def start_eq deliver_def run_microtasks_eval
      maybeTrackImpression_unfold init_def subscribe_def settle_def enqueue_def perform_def
      external_call_def trustResults_unfold trust_body_def handleReplaceUrl_unfold
      handleClickUrl_unfold invoke_unfold click_of_def param_val_def viewer_replaceUrl_def
      set_location_hash_def apply_effects_def history_replaceState_def js_or_def prop_of_def
      Let_def

text \<open>Neither the viewer nor the referrer is trusted.\<close>

definition untrusted_events :: "event list" where
  "untrusted_events = [Settle P_isTrustedViewer (Fulfils (JBool False)),
      Settle P_isTrustedReferrer (Fulfils (JBool False))]"

text \<open>The viewer is trusted; the page becomes visible and the request of the click URL fails.\<close>

definition failed_fetch_events :: "event list" where
  "failed_fetch_events = [Settle P_isTrustedViewer (Fulfils (JBool True)),
      Settle P_isTrustedReferrer (Fulfils (JBool False)),
      Settle P_whenFirstVisible (Fulfils JUndefined),
      Settle P_fetchJson (Rejects (JError ''Failed to fetch''))]"


lemma untrusted_run:
  "state (run example_env example_location untrusted_events) P_isTrustedViewer
     = Some (Fulfils (JBool False))"
  "state (run example_env example_location untrusted_events) P_isTrustedReferrer
     = Some (Fulfils (JBool False))"
  "log (run example_env example_location untrusted_events) = [IsTrustedViewer, IsTrustedReferrer]"
  by (simp_all add: run_eval untrusted_events_def example_env_def example_location_def
      cong: list.case_cong_weak)




lemma example_env_alp:
  "\<not> isExperimentOn example_env ''alp''"
  "\<not> isExperimentOn example_env_empty_click ''alp''"
  by (simp_all add: example_env_def example_env_empty_click_def)


lemma failed_fetch_log:
  "log (run example_env example_location failed_fetch_events) =
     [IsTrustedViewer, IsTrustedReferrer, ViewerReplaceUrl (JStr ''http://x''),
      SetLocationHash [], WhenFirstVisible, FetchJson ''https://ad.example/track'']"
  "state (run example_env example_location failed_fetch_events) P_whenFirstVisible
     = Some (Fulfils JUndefined)"
  by (simp_all add: run_eval failed_fetch_events_def example_env_def example_location_def
      cong: list.case_cong_weak)

lemma example_env_click:
  "getParam example_env ''click'' = Some ''https://ad.example/track''"
  "localDev example_env = False"
  by (simp_all add: example_env_def)

lemma example_location_init:
  "hash (win_location (init example_location)) = ''#click=1''"
  "log (init example_location) = []"
  by (simp_all add: init_def example_location_def)


section \<open>\<^verbatim>\<open>Promise.all\<close> of two promises\<close>

text \<open>
  Element \<open>i\<close> of the aggregate \<open>d\<close> has been dealt with: the value of the fulfilled
  element is recorded, or the aggregate is settled after the rejected element.
\<close>

definition elem_done :: "world \<Rightarrow> pid \<Rightarrow> nat \<Rightarrow> pid \<Rightarrow> bool" where
  "elem_done w d i p =
     (case state w p of
        None \<Rightarrow> False
      | Some (Fulfils v) \<Rightarrow> all_values w d ! i = Some v
      | Some (Rejects x) \<Rightarrow> state w d \<noteq> None)"

text \<open>
  The aggregate \<open>d\<close> of \<open>p\<close> and \<open>q\<close>: recorded values are the values of the elements;
  \<open>d\<close> is fulfilled only with both values and rejected only with the reason of a
  rejected element; both element functions are attached, queued or done; and \<open>d\<close> is
  settled once both values are recorded.
\<close>

definition all2 :: "world \<Rightarrow> pid \<Rightarrow> pid \<Rightarrow> pid \<Rightarrow> bool" where
  "all2 w d p q =
     ((\<exists>a b. all_values w d = [a, b]
          \<and> (\<forall>v. a = Some v \<longrightarrow> state w p = Some (Fulfils v))
          \<and> (\<forall>v. b = Some v \<longrightarrow> state w q = Some (Fulfils v)))
      \<and> (\<forall>r. state w d = Some (Fulfils r) \<longrightarrow>
             (\<exists>v1 v2. r = JArr [v1, v2] \<and> state w p = Some (Fulfils v1)
                      \<and> state w q = Some (Fulfils v2)))
      \<and> (\<forall>x. state w d = Some (Rejects x) \<longrightarrow>
             state w p = Some (Rejects x) \<or> state w q = Some (Rejects x))
      \<and> link w p (AllElement d 0) (elem_done w d 0 p)
      \<and> link w q (AllElement d 1) (elem_done w d 1 q)
      \<and> (\<forall>v1 v2. all_values w d = [Some v1, Some v2] \<longrightarrow> state w d \<noteq> None))"

lemma elem_done_cong:
  assumes "state w' = state w" and "all_values w' = all_values w"
  shows "elem_done w' d i p = elem_done w d i p"
  unfolding elem_done_def assms by (rule refl)

lemma elem_done_pop [simp]: "elem_done (w\<lparr>microtasks := js\<rparr>) d i p = elem_done w d i p"
  by (rule elem_done_cong) simp_all

lemma elem_done_mono:
  assumes "elem_done w d i p" and "evolves w w'" and "all_values w' d = all_values w d"
  shows "elem_done w' d i p"
proof (cases "state w p")
  case None
  then show ?thesis using assms(1) by (simp add: elem_done_def)
next
  case (Some out)
  then have s: "state w' p = Some out" using assms(2) by (simp add: evolves_def)
  show ?thesis
  proof (cases out)
    case (Fulfils v)
    then show ?thesis using assms(1,3) Some s by (simp add: elem_done_def)
  next
    case (Rejects x)
    then have "state w d \<noteq> None" using assms(1) Some by (simp add: elem_done_def)
    then have "state w' d \<noteq> None" using assms(2) by (rule evolves_state_neq [rotated])
    then show ?thesis using Rejects s by (simp add: elem_done_def)
  qed
qed

lemma all2_evolves:
  assumes "all2 w d p q" and "evolves w w'" and "state w' d = state w d"
    and "all_values w' d = all_values w d"
  shows "all2 w' d p q"
proof -
  have m: "\<And>p out. state w p = Some out \<Longrightarrow> state w' p = Some out"
    using assms(2) by (simp add: evolves_def)
  have 1: "\<exists>a b. all_values w' d = [a, b]
          \<and> (\<forall>v. a = Some v \<longrightarrow> state w' p = Some (Fulfils v))
          \<and> (\<forall>v. b = Some v \<longrightarrow> state w' q = Some (Fulfils v))"
    using assms(1,4) m unfolding all2_def by metis
  have 2: "\<forall>r. state w' d = Some (Fulfils r) \<longrightarrow>
             (\<exists>v1 v2. r = JArr [v1, v2] \<and> state w' p = Some (Fulfils v1)
                      \<and> state w' q = Some (Fulfils v2))"
    using assms(1,3) m unfolding all2_def by metis
  have 3: "\<forall>x. state w' d = Some (Rejects x) \<longrightarrow>
             state w' p = Some (Rejects x) \<or> state w' q = Some (Rejects x)"
    using assms(1,3) m unfolding all2_def by metis
  have lp: "link w p (AllElement d 0) (elem_done w d 0 p)"
    and lq: "link w q (AllElement d 1) (elem_done w d 1 q)"
    using assms(1) by (simp_all add: all2_def)
  have 4: "link w' p (AllElement d 0) (elem_done w' d 0 p)"
    by (rule link_evolves [OF lp assms(2)]) (rule elem_done_mono [OF _ assms(2,4)])
  have 5: "link w' q (AllElement d 1) (elem_done w' d 1 q)"
    by (rule link_evolves [OF lq assms(2)]) (rule elem_done_mono [OF _ assms(2,4)])
  have 6: "\<forall>v1 v2. all_values w' d = [Some v1, Some v2] \<longrightarrow> state w' d \<noteq> None"
    using assms(1,3,4) unfolding all2_def by simp
  show ?thesis unfolding all2_def using 1 2 3 4 5 6 by blast
qed

lemma all2_promise_all:
  assumes "state w d = None"
  shows "all2 (subscribe q (AllElement d (Suc 0)) (subscribe p (AllElement d 0)
           (w\<lparr>all_values := (all_values w)(d := [None, None])\<rparr>))) d p q"
proof -
  let ?w0 = "w\<lparr>all_values := (all_values w)(d := [None, None])\<rparr>"
  let ?w1 = "subscribe p (AllElement d 0) ?w0"
  let ?w2 = "subscribe q (AllElement d (Suc 0)) ?w1"
  have "link ?w1 p (AllElement d 0) (elem_done ?w1 d 0 p)" by simp
  then have 4: "link ?w2 p (AllElement d 0) (elem_done ?w2 d 0 p)"
    by (rule link_evolves) (auto intro: elem_done_mono)
  have 5: "link ?w2 q (AllElement d 1) (elem_done ?w2 d 1 q)" by simp
  show ?thesis unfolding all2_def using assms 4 5 by simp
qed

text \<open>The element function of index \<open>i\<close> runs.\<close>

lemma all2_element:
  assumes "all2 w d p q" and "microtasks w = ReactionJob (AllElement d i) out # js"
    and "i = 0 \<and> state w p = Some out \<or> i = 1 \<and> state w q = Some out"
    and "p \<noteq> d" and "q \<noteq> d"
  shows "all2 (run_job e (ReactionJob (AllElement d i) out) (w\<lparr>microtasks := js\<rparr>)) d p q"
proof -
  define w0 where "w0 = w\<lparr>microtasks := js\<rparr>"
  define w' where "w' = run_job e (ReactionJob (AllElement d i) out) w0"
  obtain a b where ab: "all_values w d = [a, b]"
      "\<And>v. a = Some v \<Longrightarrow> state w p = Some (Fulfils v)"
      "\<And>v. b = Some v \<Longrightarrow> state w q = Some (Fulfils v)"
    using assms(1) unfolding all2_def by blast
  have ful: "\<And>r. state w d = Some (Fulfils r) \<Longrightarrow>
             (\<exists>v1 v2. r = JArr [v1, v2] \<and> state w p = Some (Fulfils v1)
                      \<and> state w q = Some (Fulfils v2))"
    and rej: "\<And>x. state w d = Some (Rejects x) \<Longrightarrow>
             state w p = Some (Rejects x) \<or> state w q = Some (Rejects x)"
    and both: "\<And>v1 v2. all_values w d = [Some v1, Some v2] \<Longrightarrow> state w d \<noteq> None"
    using assms(1) unfolding all2_def by blast+
  have lp: "link w p (AllElement d 0) (elem_done w d 0 p)"
    and lq: "link w q (AllElement d 1) (elem_done w d 1 q)"
    using assms(1) unfolding all2_def by blast+
  have ev: "evolves (w\<lparr>microtasks := js\<rparr>) w'" by (simp add: w'_def w0_def)
  have sp: "state w' p = state w p"
    using run_job_state [of "ReactionJob (AllElement d i) out" p e w0] assms(4)
    by (simp add: w'_def w0_def)
  have sq: "state w' q = state w q"
    using run_job_state [of "ReactionJob (AllElement d i) out" q e w0] assms(5)
    by (simp add: w'_def w0_def)
  have dm: "state w d \<noteq> None \<Longrightarrow> state w' d = state w d"
    using evolves_state [OF ev, of d] by auto
  have "all2 w' d p q"
  proof (cases out)
    case (Rejects x)
    have av: "all_values w' d = all_values w d"
      using Rejects by (simp add: w'_def w0_def)
    have sd: "state w' d = (if state w d = None then Some (Rejects x) else state w d)"
      using Rejects by (simp add: w'_def w0_def)
    have dn: "state w' d \<noteq> None" unfolding sd by simp
    have 1: "\<exists>a b. all_values w' d = [a, b]
          \<and> (\<forall>v. a = Some v \<longrightarrow> state w' p = Some (Fulfils v))
          \<and> (\<forall>v. b = Some v \<longrightarrow> state w' q = Some (Fulfils v))"
      unfolding av sp sq using ab by blast
    have 2: "\<forall>r. state w' d = Some (Fulfils r) \<longrightarrow>
             (\<exists>v1 v2. r = JArr [v1, v2] \<and> state w' p = Some (Fulfils v1)
                      \<and> state w' q = Some (Fulfils v2))"
      unfolding sd sp sq using ful by auto
    have 3: "\<forall>y. state w' d = Some (Rejects y) \<longrightarrow>
             state w' p = Some (Rejects y) \<or> state w' q = Some (Rejects y)"
      unfolding sd sp sq using rej assms(3) Rejects by auto
    have mono: "elem_done w' d i' p'" if "elem_done w d i' p'" for i' p'
    proof (rule elem_done_mono [OF _ ev])
      show "elem_done (w\<lparr>microtasks := js\<rparr>) d i' p'" using that by simp
      show "all_values w' d = all_values (w\<lparr>microtasks := js\<rparr>) d" using av by simp
    qed
    have 4: "link w' p (AllElement d 0) (elem_done w' d 0 p)"
    proof (rule link_step [OF lp assms(2) ev])
      show "elem_done w d 0 p \<Longrightarrow> elem_done w' d 0 p" by (rule mono)
      fix o' assume "state w p = Some o'" "ReactionJob (AllElement d i) out = ReactionJob (AllElement d 0) o'"
      then have "state w' p = Some (Rejects x)" using Rejects sp by simp
      then show "elem_done w' d 0 p" using dn by (simp add: elem_done_def)
    qed
    have 5: "link w' q (AllElement d 1) (elem_done w' d 1 q)"
    proof (rule link_step [OF lq assms(2) ev])
      show "elem_done w d 1 q \<Longrightarrow> elem_done w' d 1 q" by (rule mono)
      fix o' assume "state w q = Some o'" "ReactionJob (AllElement d i) out = ReactionJob (AllElement d 1) o'"
      then have "state w' q = Some (Rejects x)" using Rejects sq by simp
      then show "elem_done w' d 1 q" using dn by (simp add: elem_done_def)
    qed
    have 6: "\<forall>v1 v2. all_values w' d = [Some v1, Some v2] \<longrightarrow> state w' d \<noteq> None"
      using dn by simp
    show ?thesis unfolding all2_def using 1 2 3 4 5 6 by blast
  next
    case (Fulfils v)
    define vs where "vs = (if i = 0 then [Some v, b] else [a, Some v])"
    have i01: "i = 0 \<or> i = 1" using assms(3) by auto
    have av: "all_values w' d = vs"
      using Fulfils ab(1) i01 by (auto simp: w'_def w0_def vs_def Let_def split: option.splits)
    have sd: "state w' d =
        (case those vs of None \<Rightarrow> state w d
         | Some xs \<Rightarrow> if state w d = None then Some (Fulfils (JArr xs)) else state w d)"
      using Fulfils ab(1) i01 by (auto simp: w'_def w0_def vs_def Let_def split: option.splits)
    have src: "i = 0 \<and> state w p = Some (Fulfils v) \<or> i = 1 \<and> state w q = Some (Fulfils v)"
      using assms(3) Fulfils by simp
    have 1: "\<exists>a b. all_values w' d = [a, b]
          \<and> (\<forall>v. a = Some v \<longrightarrow> state w' p = Some (Fulfils v))
          \<and> (\<forall>v. b = Some v \<longrightarrow> state w' q = Some (Fulfils v))"
      unfolding av sp sq vs_def using ab(2,3) src by auto
    have 2: "\<forall>r. state w' d = Some (Fulfils r) \<longrightarrow>
             (\<exists>v1 v2. r = JArr [v1, v2] \<and> state w' p = Some (Fulfils v1)
                      \<and> state w' q = Some (Fulfils v2))"
      unfolding sd sp sq vs_def using ful ab(2,3) src
      by (cases a; cases b) (auto split: if_splits)
    have 3: "\<forall>y. state w' d = Some (Rejects y) \<longrightarrow>
             state w' p = Some (Rejects y) \<or> state w' q = Some (Rejects y)"
      unfolding sd sp sq vs_def using rej
      by (cases a; cases b) (auto split: if_splits)
    have 6: "\<forall>v1 v2. all_values w' d = [Some v1, Some v2] \<longrightarrow> state w' d \<noteq> None"
      unfolding av sd vs_def by (cases a; cases b) (auto split: if_splits)
    have keep0: "i = 1 \<Longrightarrow> all_values w' d ! 0 = all_values w d ! 0"
      and keep1: "i = 0 \<Longrightarrow> all_values w' d ! 1 = all_values w d ! 1"
      using av ab(1) by (simp_all add: vs_def)
    have dnn: "state w d \<noteq> None \<Longrightarrow> state w' d \<noteq> None" using dm by simp
    have 4: "link w' p (AllElement d 0) (elem_done w' d 0 p)"
    proof (rule link_step [OF lp assms(2) ev])
      assume "elem_done w d 0 p"
      then show "elem_done w' d 0 p"
        using sp av ab(1) src dnn
        by (auto simp: elem_done_def vs_def split: option.splits outcome.splits)
    next
      fix o' assume "state w p = Some o'" "ReactionJob (AllElement d i) out = ReactionJob (AllElement d 0) o'"
      then have "state w' p = Some (Fulfils v)" "i = 0" using Fulfils sp by simp_all
      then show "elem_done w' d 0 p" using av by (simp add: elem_done_def vs_def)
    qed
    have 5: "link w' q (AllElement d 1) (elem_done w' d 1 q)"
    proof (rule link_step [OF lq assms(2) ev])
      assume "elem_done w d 1 q"
      then show "elem_done w' d 1 q"
        using sq av ab(1) src dnn
        by (auto simp: elem_done_def vs_def split: option.splits outcome.splits)
    next
      fix o' assume "state w q = Some o'" "ReactionJob (AllElement d i) out = ReactionJob (AllElement d 1) o'"
      then have "state w' q = Some (Fulfils v)" "i = 1" using Fulfils sq by simp_all
      then show "elem_done w' d 1 q" using av by (simp add: elem_done_def vs_def)
    qed
    show ?thesis unfolding all2_def using 1 2 3 4 5 6 by blast
  qed
  then show ?thesis by (simp add: w'_def w0_def)
qed

text \<open>A job that does not settle the aggregate and does not set it up again.\<close>

lemma all2_other_job:
  assumes "all2 w d p q" and "microtasks w = j # js" and "\<not> job_settles j d"
    and "d = P_join \<longrightarrow> job_callback j \<noteq> Some TrustResults"
    and "d \<noteq> P_promise" and "d \<noteq> P_replaceUrlPromise" and "d \<noteq> P_clickUrlPromise"
  shows "all2 (run_job e j (w\<lparr>microtasks := js\<rparr>)) d p q"
proof -
  define w0 where "w0 = w\<lparr>microtasks := js\<rparr>"
  define w' where "w' = run_job e j w0"
  have ev: "evolves w0 w'" by (simp add: w'_def)
  have sd: "state w' d = state w0 d"
    using run_job_state [of j d e w0] assms(3,5,6,7) by (simp add: w'_def)
  have ne: "\<not> (\<exists>i out. j = ReactionJob (AllElement d i) out)" using assms(3) by auto
  have av: "all_values w' d = all_values w0 d"
    using run_job_all_values [OF ne assms(4), of e w0] by (simp add: w'_def)
  have a0: "all2 w0 d p q"
  proof -
    have l: "link w0 p' r dn" if "link w p' r dn" "\<And>out. j \<noteq> ReactionJob r out" for p' r dn
      using that assms(2) by (auto simp: link_def w0_def split: option.splits)
    have "\<And>out. j \<noteq> ReactionJob (AllElement d 0) out" "\<And>out. j \<noteq> ReactionJob (AllElement d 1) out"
      using assms(3) by auto
    then show ?thesis
      using assms(1) l [of p "AllElement d 0"] l [of q "AllElement d 1"]
      unfolding all2_def by (simp add: w0_def)
  qed
  have "all2 w' d p q" using a0 ev sd av by (rule all2_evolves)
  then show ?thesis by (simp add: w'_def w0_def)
qed

text \<open>At rest, the aggregate is settled as soon as both elements are.\<close>

lemma all2_quiescent:
  assumes "all2 w d p q" and "microtasks w = []"
  shows "state w p = Some (Fulfils a) \<Longrightarrow> state w q = Some (Fulfils b) \<Longrightarrow>
           state w d = Some (Fulfils (JArr [a, b]))"
    and "state w p = Some (Rejects x) \<or> state w q = Some (Rejects x) \<Longrightarrow>
           \<exists>y. state w d = Some (Rejects y)"
proof -
  obtain a' b' where ab: "all_values w d = [a', b']"
    using assms(1) unfolding all2_def by blast
  have lp: "link w p (AllElement d 0) (elem_done w d 0 p)"
    and lq: "link w q (AllElement d 1) (elem_done w d 1 q)"
    using assms(1) unfolding all2_def by blast+
  have ful: "\<And>r. state w d = Some (Fulfils r) \<Longrightarrow>
             (\<exists>v1 v2. r = JArr [v1, v2] \<and> state w p = Some (Fulfils v1)
                      \<and> state w q = Some (Fulfils v2))"
    and rej: "\<And>x. state w d = Some (Rejects x) \<Longrightarrow>
             state w p = Some (Rejects x) \<or> state w q = Some (Rejects x)"
    and both: "\<And>v1 v2. all_values w d = [Some v1, Some v2] \<Longrightarrow> state w d \<noteq> None"
    using assms(1) unfolding all2_def by blast+
  {
    assume p: "state w p = Some (Fulfils a)" and q: "state w q = Some (Fulfils b)"
    have "all_values w d = [Some a, Some b]"
      using lp lq p q ab assms(2) by (simp add: link_def elem_done_def)
    then have "state w d \<noteq> None" by (rule both)
    then obtain out where out: "state w d = Some out" by auto
    show "state w d = Some (Fulfils (JArr [a, b]))"
    proof (cases out)
      case (Fulfils r)
      then show ?thesis using ful [of r] out p q by auto
    next
      case (Rejects y)
      then show ?thesis using rej [of y] out p q by auto
    qed
  }
  {
    assume r: "state w p = Some (Rejects x) \<or> state w q = Some (Rejects x)"
    then have "state w d \<noteq> None"
      using lp lq assms(2) by (auto simp: link_def elem_done_def)
    then obtain out where out: "state w d = Some out" by auto
    show "\<exists>y. state w d = Some (Rejects y)"
    proof (cases out)
      case (Fulfils r')
      then show ?thesis using ful [of r'] out r by auto
    next
      case (Rejects y)
      then show ?thesis using out by simp
    qed
  }
qed

section \<open>The trust check and the join of the two steps\<close>

text \<open>
  What a session logs and attaches before the callback of the trust results has let the
  two steps start.
\<close>

definition session_effects :: "effect set" where
  "session_effects = {IsTrustedViewer, IsTrustedReferrer,
     DevWarn [JStr ''IMPRESSION'', JError ''TrackImpressionPromise timeout'']}"

definition session_reactions :: "reaction set" where
  "session_reactions = {Adopt P_timeout, R_catch, AllElement P_trustAll 0,
     AllElement P_trustAll 1, R_trust}"

definition session_job :: "job \<Rightarrow> bool" where
  "session_job j = (case j of ReactionJob r out \<Rightarrow> r \<in> session_reactions | ThenableJob q d \<Rightarrow> False)"

definition steps_idle :: "world \<Rightarrow> bool" where
  "steps_idle w =
     ((\<forall>(p, r) \<in> set (reactions w). r \<in> session_reactions)
      \<and> (\<forall>j \<in> set (microtasks w). session_job j)
      \<and> set (log w) \<subseteq> session_effects
      \<and> state w P_join = None \<and> state w P_joinThen = None
      \<and> state w P_replaceUrlPromise = None \<and> state w P_clickUrlPromise = None)"

text \<open>The trust results that let the two steps start.\<close>

definition gate_open :: "env \<Rightarrow> jsval \<Rightarrow> bool" where
  "gate_open e r =
     (\<exists>v1 v2. r = JArr [v1, v2] \<and> (truthy v1 \<or> truthy v2 \<or> isExperimentOn e ''alp''))"

definition started :: "env \<Rightarrow> world \<Rightarrow> bool" where
  "started e w =
     ((\<exists>r. state w P_trustAll = Some (Fulfils r) \<and> gate_open e r) \<and> state w P_trustThen \<noteq> None)"

definition joined :: "world \<Rightarrow> bool" where
  "joined w =
     (all2 w P_join P_replaceUrlPromise P_clickUrlPromise
      \<and> link w P_join R_join (state w P_joinThen \<noteq> None))"

lemma steps_idle_cong:
  assumes "reactions w' = reactions w" and "microtasks w' = microtasks w" and "log w' = log w"
    and "state w' = state w"
  shows "steps_idle w' = steps_idle w"
  unfolding steps_idle_def assms by (rule refl)

lemma steps_idle_fields [simp]:
  "steps_idle (w\<lparr>all_values := a\<rparr>) = steps_idle w"
  "steps_idle (w\<lparr>outstanding := os\<rparr>) = steps_idle w"
  "steps_idle (w\<lparr>timers := ts\<rparr>) = steps_idle w"
  "steps_idle (w\<lparr>trackImpressionPromise := tp\<rparr>) = steps_idle w"
  by (rule steps_idle_cong; simp)+

lemma steps_idle_pop:
  "steps_idle w \<Longrightarrow> microtasks w = j # js \<Longrightarrow> steps_idle (w\<lparr>microtasks := js\<rparr>)"
  by (simp add: steps_idle_def)

lemma steps_idle_settle:
  assumes "steps_idle w" and "p \<noteq> P_join" and "p \<noteq> P_joinThen"
    and "p \<noteq> P_replaceUrlPromise" and "p \<noteq> P_clickUrlPromise"
  shows "steps_idle (settle p out w)"
proof (cases "state w p")
  case (Some o')
  then have "settle p out w = w" by (simp add: settle_def)
  then show ?thesis using assms(1) by simp
next
  case None
  have r: "\<forall>(q, r) \<in> set (reactions w). r \<in> session_reactions"
    using assms(1) by (simp add: steps_idle_def)
  have 1: "\<forall>(q, r) \<in> set (reactions (settle p out w)). r \<in> session_reactions"
    using r None by auto
  have 2: "\<forall>j \<in> set (microtasks (settle p out w)). session_job j"
    using assms(1) r None by (auto simp: steps_idle_def session_job_def)
  show ?thesis
    unfolding steps_idle_def using 1 2 assms by (simp add: steps_idle_def)
qed

lemma steps_idle_perform:
  "steps_idle w \<Longrightarrow> x \<in> session_effects \<Longrightarrow> steps_idle (perform x w)"
  by (simp add: steps_idle_def)

lemma steps_idle_job:
  "steps_idle w \<Longrightarrow> j \<in> set (microtasks w) \<Longrightarrow>
     \<exists>r out. j = ReactionJob r out \<and> r \<in> session_reactions"
  by (cases j) (auto simp: steps_idle_def session_job_def)

text \<open>The callback of the trust results is attached or queued at most once, and not after
  it has run.\<close>

lemma tokens_reaction: "(p, r) \<in> set (reactions w) \<Longrightarrow> Q r \<Longrightarrow> 0 < tokens Q w"
  by (auto simp: tokens_def filter_empty_conv)

lemma tokens_job: "ReactionJob r out \<in> set (microtasks w) \<Longrightarrow> Q r \<Longrightarrow> 0 < tokens Q w"
  by (force simp: tokens_def filter_empty_conv)

lemma trust_pending:
  assumes "inv_core e w"
  shows "(P_trustAll, R_trust) \<in> set (reactions w) \<Longrightarrow> state w P_trustThen = None"
    and "ReactionJob R_trust out \<in> set (microtasks w) \<Longrightarrow> state w P_trustThen = None"
proof -
  have tok: "tokens (\<lambda>r. r = R_trust) w + (if state w P_trustThen = None then 0 else 1) = 1"
    using assms by (simp add: inv_core_def)
  show "(P_trustAll, R_trust) \<in> set (reactions w) \<Longrightarrow> state w P_trustThen = None"
    using tok tokens_reaction [of P_trustAll R_trust w "\<lambda>r. r = R_trust"] by (simp split: if_splits)
  show "ReactionJob R_trust out \<in> set (microtasks w) \<Longrightarrow> state w P_trustThen = None"
    using tok tokens_job [of R_trust out w "\<lambda>r. r = R_trust"] by (simp split: if_splits)
qed

lemma trust_settled:
  assumes "inv_core e w" and "link w P_trustAll R_trust d" and "state w P_trustThen \<noteq> None"
  shows "state w P_trustAll \<noteq> None"
  using assms(2,3) trust_pending(1) [OF assms(1)] by (cases "state w P_trustAll") (auto simp: link_def)

text \<open>The world after the callback of the trust results.\<close>

lemma trust_body_closed:
  "\<not> truthy v1 \<Longrightarrow> \<not> truthy v2 \<Longrightarrow> \<not> isExperimentOn e ''alp'' \<Longrightarrow>
     trust_body e v1 v2 w = settle P_promise (Fulfils JUndefined) w"
  by (simp add: trust_body_def)

lemma trust_body_open:
  "truthy v1 \<or> truthy v2 \<or> isExperimentOn e ''alp'' \<Longrightarrow>
     trust_body e v1 v2 w =
       subscribe P_join R_join
         (subscribe P_clickUrlPromise (AllElement P_join (Suc 0))
           (subscribe P_replaceUrlPromise (AllElement P_join 0)
             ((snd (handleClickUrl e (snd (handleReplaceUrl e w))))
                \<lparr>all_values := (all_values (snd (handleClickUrl e (snd (handleReplaceUrl e w)))))
                                  (P_join := [None, None])\<rparr>)))"
  by (auto simp: trust_body_def)

lemma trust_body_open_promise:
  "truthy v1 \<or> truthy v2 \<or> isExperimentOn e ''alp'' \<Longrightarrow>
     state (trust_body e v1 v2 w) P_promise = state w P_promise"
  by (simp add: trust_body_open)

lemma run_trust_job:
  "run_job e (ReactionJob R_trust (Fulfils (JArr [v1, v2]))) w =
     settle P_trustThen (Fulfils JUndefined) (trust_body e v1 v2 w)"
  "run_job e (ReactionJob R_trust (Rejects x)) w = settle P_trustThen (Rejects x) w"
  by (simp_all add: trustResults_unfold)

lemma joined_trust_body:
  assumes "state w P_join = None" and "truthy v1 \<or> truthy v2 \<or> isExperimentOn e ''alp''"
  shows "joined (settle P_trustThen out (trust_body e v1 v2 w))"
proof -
  define h where "h = snd (handleClickUrl e (snd (handleReplaceUrl e w)))"
  define a where "a = subscribe P_clickUrlPromise (AllElement P_join (Suc 0))
           (subscribe P_replaceUrlPromise (AllElement P_join 0)
             (h\<lparr>all_values := (all_values h)(P_join := [None, None])\<rparr>))"
  define b where "b = subscribe P_join R_join a"
  define c where "c = settle P_trustThen out b"
  have tb: "trust_body e v1 v2 w = b"
    using assms(2) by (simp add: trust_body_open b_def a_def h_def)
  have "state h P_join = None" using assms(1) by (simp add: h_def)
  then have a: "all2 a P_join P_replaceUrlPromise P_clickUrlPromise"
    unfolding a_def by (rule all2_promise_all)
  have ev: "evolves a c" by (simp add: c_def b_def)
  have "all2 c P_join P_replaceUrlPromise P_clickUrlPromise"
    using a ev by (rule all2_evolves) (simp_all add: c_def b_def)
  moreover have "link c P_join R_join (state c P_joinThen \<noteq> None)"
  proof (rule link_evolves)
    show "link b P_join R_join False" unfolding b_def by simp
    show "evolves b c" by (simp add: c_def)
  qed simp
  ultimately show ?thesis by (simp add: joined_def tb c_def)
qed


lemma all2_fulfilled:
  assumes "all2 w d p q" and "state w d = Some (Fulfils r)"
  shows "\<exists>v1 v2. r = JArr [v1, v2] \<and> state w p = Some (Fulfils v1) \<and> state w q = Some (Fulfils v2)"
  using assms unfolding all2_def by blast

lemma job_ok_callbackE:
  assumes "job_ok e w j" and "job_callback j = Some c"
  shows "\<exists>p f g d out. j = ReactionJob (Then f g d) out \<and> (p, Then f g d) \<in> set (wiring e)
    \<and> state w p = Some out
    \<and> ((\<exists>v. out = Fulfils v \<and> f = Some c) \<or> (\<exists>x. out = Rejects x \<and> g = Some c))"
  by (rule job_ok_callback [OF assms]) blast

lemma trust_callback:
  assumes "job_ok e w j" and "job_callback j = Some TrustResults"
  shows "\<exists>v. j = ReactionJob R_trust (Fulfils v) \<and> state w P_trustAll = Some (Fulfils v)"
proof -
  from job_ok_callbackE [OF assms]
  obtain p f g d out where c: "j = ReactionJob (Then f g d) out" "(p, Then f g d) \<in> set (wiring e)"
    "state w p = Some out"
    "(\<exists>v. out = Fulfils v \<and> f = Some TrustResults) \<or> (\<exists>x. out = Rejects x \<and> g = Some TrustResults)"
    by blast
  then have "f = Some TrustResults \<or> g = Some TrustResults" by blast
  from wiring_callback(1) [OF c(2) this] have r: "p = P_trustAll" "Then f g d = R_trust" by simp_all
  then show ?thesis using c by auto
qed

lemma join_callback:
  assumes "job_ok e w j" and "job_callback j = Some JoinResolve"
  shows "\<exists>v. j = ReactionJob R_join (Fulfils v) \<and> state w P_join = Some (Fulfils v)"
proof -
  from job_ok_callbackE [OF assms]
  obtain p f g d out where c: "j = ReactionJob (Then f g d) out" "(p, Then f g d) \<in> set (wiring e)"
    "state w p = Some out"
    "(\<exists>v. out = Fulfils v \<and> f = Some JoinResolve) \<or> (\<exists>x. out = Rejects x \<and> g = Some JoinResolve)"
    by blast
  then have "f = Some JoinResolve \<or> g = Some JoinResolve" by blast
  from wiring_callback(2) [OF c(2) this] have r: "p = P_join" "Then f g d = R_join" by simp_all
  then show ?thesis using c by auto
qed

text \<open>
  The invariant of the trust check: both aggregates behave as \<^verbatim>\<open>Promise.all\<close>; the steps are idle
  until the callback of the trust results has started them, and joined from then on;
  the session promise is resolved by that callback on closed results, or by the
  fulfilment handler of the join, and by nothing else.
\<close>

definition inv_gate :: "env \<Rightarrow> world \<Rightarrow> bool" where
  "inv_gate e w =
     (all2 w P_trustAll P_isTrustedViewer P_isTrustedReferrer
      \<and> link w P_trustAll R_trust (state w P_trustThen \<noteq> None)
      \<and> (\<not> started e w \<longrightarrow> steps_idle w)
      \<and> (started e w \<longrightarrow> joined w)
      \<and> (\<forall>r. state w P_trustAll = Some (Fulfils r) \<longrightarrow> \<not> gate_open e r \<longrightarrow>
              state w P_trustThen \<noteq> None \<longrightarrow> state w P_promise \<noteq> None)
      \<and> (state w P_promise \<noteq> None \<longrightarrow>
              (\<exists>r. state w P_trustAll = Some (Fulfils r) \<and> \<not> gate_open e r)
              \<or> (\<exists>r. state w P_join = Some (Fulfils r)))
      \<and> (\<forall>r. state w P_joinThen \<noteq> None \<longrightarrow> state w P_join = Some (Fulfils r) \<longrightarrow>
              state w P_promise \<noteq> None)
      \<and> (state w P_joinThen = None \<or> state w P_joinThen = Some (Fulfils JUndefined))
      \<and> (state w P_joinThen \<noteq> None \<longrightarrow> state w P_join \<noteq> None)
      \<and> (\<forall>x. state w P_timeout = Some (Rejects x) \<longrightarrow>
              x = JError ''TrackImpressionPromise timeout''))"

lemma inv_gateD:
  assumes "inv_gate e w"
  shows "all2 w P_trustAll P_isTrustedViewer P_isTrustedReferrer"
    and "link w P_trustAll R_trust (state w P_trustThen \<noteq> None)"
    and "\<not> started e w \<Longrightarrow> steps_idle w"
    and "started e w \<Longrightarrow> joined w"
    and "\<And>r. state w P_trustAll = Some (Fulfils r) \<Longrightarrow> \<not> gate_open e r \<Longrightarrow>
              state w P_trustThen \<noteq> None \<Longrightarrow> state w P_promise \<noteq> None"
    and "state w P_promise \<noteq> None \<Longrightarrow>
              (\<exists>r. state w P_trustAll = Some (Fulfils r) \<and> \<not> gate_open e r)
              \<or> (\<exists>r. state w P_join = Some (Fulfils r))"
    and "\<And>r. state w P_joinThen \<noteq> None \<Longrightarrow> state w P_join = Some (Fulfils r) \<Longrightarrow>
              state w P_promise \<noteq> None"
    and "state w P_joinThen = None \<or> state w P_joinThen = Some (Fulfils JUndefined)"
    and "state w P_joinThen \<noteq> None \<Longrightarrow> state w P_join \<noteq> None"
    and "\<And>x. state w P_timeout = Some (Rejects x) \<Longrightarrow>
              x = JError ''TrackImpressionPromise timeout''"
  using assms unfolding inv_gate_def by blast+

lemma inv_gate_init: "inv_gate e (maybeTrackImpression e (init loc))"
proof -
  define w where "w = maybeTrackImpression e (init loc)"
  have s: "state w = (\<lambda>p. None)"
    by (simp add: w_def maybeTrackImpression_unfold init_def fun_eq_iff)
  have 1: "all2 w P_trustAll P_isTrustedViewer P_isTrustedReferrer"
    unfolding all2_def s by (simp add: w_def maybeTrackImpression_unfold init_def link_def)
  have 2: "link w P_trustAll R_trust (state w P_trustThen \<noteq> None)"
    by (simp add: w_def maybeTrackImpression_unfold init_def link_def)
  have 3: "steps_idle w"
    by (simp add: w_def maybeTrackImpression_unfold init_def steps_idle_def session_reactions_def
        session_effects_def)
  have 4: "\<not> started e w" by (simp add: started_def s)
  have "inv_gate e w"
    unfolding inv_gate_def using 1 2 3 4 by (simp add: s)
  then show ?thesis by (simp add: w_def)
qed

lemma inv_gate_job:
  assumes "inv_core e w" and "inv_session w" and "inv_gate e w" and "microtasks w = j # js"
  shows "inv_gate e (run_job e j (w\<lparr>microtasks := js\<rparr>))"
proof -
  define w0 where "w0 = w\<lparr>microtasks := js\<rparr>"
  define w' where "w' = run_job e j w0"
  note g = inv_gateD [OF assms(3)]
  have ok: "job_ok e w j"
    using wired_pop [of e w j js] assms(1,4) by (simp add: inv_core_def)
  have jin: "j \<in> set (microtasks w)" using assms(4) by simp
  have st0: "state w0 = state w" by (simp add: w0_def)
  have ev: "evolves w0 w'" by (simp add: w'_def)
  have ev0: "evolves (w\<lparr>microtasks := js\<rparr>) w'" using ev by (simp add: w0_def)
  have mono: "\<And>p out. state w p = Some out \<Longrightarrow> state w' p = Some out"
    using evolves_state [OF ev] st0 by simp
  have mono': "\<And>p. state w p \<noteq> None \<Longrightarrow> state w' p \<noteq> None"
    using mono by auto
  have src: "\<And>p r out. j = ReactionJob r out \<Longrightarrow> (p, r) \<in> set (wiring e) \<Longrightarrow> state w p = Some out"
    using ok wiring_source by auto
  have step: "state w' p = state w p
      \<or> (\<exists>q r out. j = ReactionJob r out \<and> (q, r) \<in> set (wiring e) \<and> reaction_target r = p
            \<and> state w q = Some out)"
    if "p \<noteq> P_promise" "p \<noteq> P_replaceUrlPromise" "p \<noteq> P_clickUrlPromise" for p
  proof (cases "job_settles j p")
    case True
    from job_ok_settles [OF ok this] show ?thesis by blast
  next
    case False
    then show ?thesis using run_job_state [of j p e w0] that st0 by (simp add: w'_def)
  qed
  have tt: "state w' P_trustThen = state w P_trustThen
      \<or> (state w P_trustThen = None \<and> (\<exists>out. j = ReactionJob R_trust out \<and> state w P_trustAll = Some out))"
  proof -
    from step [of P_trustThen]
    consider "state w' P_trustThen = state w P_trustThen"
      | q r out where "j = ReactionJob r out" "(q, r) \<in> set (wiring e)"
          "reaction_target r = P_trustThen" "state w q = Some out"
      by auto
    then show ?thesis
    proof cases
      case 1
      then show ?thesis by simp
    next
      case 2
      then have r: "q = P_trustAll" "r = R_trust" using wiring_target(5) by blast+
      then have "state w P_trustThen = None"
        using trust_pending(2) [OF assms(1), of out] jin 2(1) by simp
      then show ?thesis using 2 r by simp
    qed
  qed
  have jt: "state w' P_joinThen = state w P_joinThen
      \<or> (\<exists>out. j = ReactionJob R_join out \<and> state w P_join = Some out)"
  proof -
    from step [of P_joinThen]
    consider "state w' P_joinThen = state w P_joinThen"
      | q r out where "j = ReactionJob r out" "(q, r) \<in> set (wiring e)"
          "reaction_target r = P_joinThen" "state w q = Some out"
      by auto
    then show ?thesis
    proof cases
      case 1
      then show ?thesis by simp
    next
      case 2
      then have r: "q = P_join" "r = R_join" using wiring_target(6) by blast+
      then show ?thesis using 2 by simp
    qed
  qed
  have g1: "all2 w' P_trustAll P_isTrustedViewer P_isTrustedReferrer"
  proof (cases "job_settles j P_trustAll")
    case True
    from job_ok_settles [OF ok this]
    obtain p r out where j: "j = ReactionJob r out" "(p, r) \<in> set (wiring e)"
        "reaction_target r = P_trustAll" "state w p = Some out"
      by blast
    then have "(p = P_isTrustedViewer \<and> r = AllElement P_trustAll 0)
           \<or> (p = P_isTrustedReferrer \<and> r = AllElement P_trustAll 1)"
      using wiring_target(7) by blast
    then obtain i where i: "r = AllElement P_trustAll i"
        "i = 0 \<and> state w P_isTrustedViewer = Some out \<or> i = 1 \<and> state w P_isTrustedReferrer = Some out"
      using j(4) by auto
    have m: "microtasks w = ReactionJob (AllElement P_trustAll i) out # js"
      using assms(4) j(1) i(1) by simp
    show ?thesis
      unfolding w'_def w0_def j(1) i(1) by (rule all2_element [OF g(1) m i(2)]) simp_all
  next
    case False
    show ?thesis
      unfolding w'_def w0_def by (rule all2_other_job [OF g(1) assms(4) False]) simp_all
  qed
  have g2: "link w' P_trustAll R_trust (state w' P_trustThen \<noteq> None)"
  proof (rule link_step [OF g(2) assms(4) ev0])
    show "state w P_trustThen \<noteq> None \<Longrightarrow> state w' P_trustThen \<noteq> None" by (rule mono')
    fix out assume "j = ReactionJob R_trust out"
    then show "state w' P_trustThen \<noteq> None"
      using then_settled [of "Some TrustResults" None P_trustThen out e w0]
      by (cases out) (auto simp: w'_def)
  qed
  have sm: "started e w \<Longrightarrow> started e w'"
    using mono mono' unfolding started_def by blast
  have open_job: "\<exists>v1 v2. j = ReactionJob R_trust (Fulfils (JArr [v1, v2]))
          \<and> (truthy v1 \<or> truthy v2 \<or> isExperimentOn e ''alp'')"
    if "started e w'" "\<not> started e w"
  proof -
    from that(1) obtain r where r: "state w' P_trustAll = Some (Fulfils r)" "gate_open e r"
        "state w' P_trustThen \<noteq> None"
      by (auto simp: started_def)
    have n: "state w P_trustThen = None"
    proof (rule ccontr)
      assume a: "state w P_trustThen \<noteq> None"
      then have "state w P_trustAll \<noteq> None" using trust_settled [OF assms(1) g(2)] by simp
      then have "state w P_trustAll = Some (Fulfils r)"
        using r(1) mono by (cases "state w P_trustAll") auto
      then show False using that(2) a r(2) by (auto simp: started_def)
    qed
    then obtain out where j: "j = ReactionJob R_trust out" "state w P_trustAll = Some out"
      using tt r(3) by auto
    then have "out = Fulfils r" using mono [OF j(2)] r(1) by simp
    then show ?thesis using j r(2) by (auto simp: gate_open_def)
  qed
  have g3: "steps_idle w'" if ns: "\<not> started e w'"
  proof -
    have "\<not> started e w" using sm ns by blast
    then have idle: "steps_idle w" using g(3) by simp
    then have idle0: "steps_idle w0" unfolding w0_def using assms(4) by (rule steps_idle_pop)
    obtain r out where j: "j = ReactionJob r out" "r \<in> session_reactions"
      using steps_idle_job [OF idle jin] by blast
    consider "r = Adopt P_timeout" | "r = R_catch" | i where "r = AllElement P_trustAll i"
      | "r = R_trust"
      using j(2) by (auto simp: session_reactions_def)
    then show ?thesis
    proof cases
      case 1
      then show ?thesis using idle0 j(1) by (simp add: w'_def steps_idle_settle)
    next
      case 2
      have s: "state w P_timeout = Some out" using src [OF j(1), of P_timeout] 2 by simp
      show ?thesis
      proof (cases out)
        case (Fulfils v)
        then show ?thesis using idle0 j(1) 2 by (simp add: w'_def steps_idle_settle)
      next
        case (Rejects x)
        then have "x = JError ''TrackImpressionPromise timeout''" using g(10) s by simp
        then have "DevWarn [JStr ''IMPRESSION'', x] \<in> session_effects"
          by (simp add: session_effects_def)
        then show ?thesis
          using idle0 j(1) 2 Rejects by (simp add: w'_def steps_idle_settle steps_idle_perform)
      qed
    next
      case 3
      then show ?thesis
        using idle0 j(1)
        by (cases out) (simp_all add: w'_def Let_def steps_idle_settle split: option.splits)
    next
      case 4
      have s: "state w P_trustAll = Some out" using src [OF j(1), of P_trustAll] 4 by simp
      show ?thesis
      proof (cases out)
        case (Rejects x)
        have "w' = settle P_trustThen (Rejects x) w0"
          by (simp only: w'_def j(1) 4 Rejects run_trust_job)
        then show ?thesis using idle0 by (simp add: steps_idle_settle)
      next
        case (Fulfils v)
        then obtain v1 v2 where v: "v = JArr [v1, v2]"
          using all2_fulfilled [OF g(1), of v] s by auto
        have tn: "state w' P_trustThen \<noteq> None"
          using then_settled [of "Some TrustResults" None P_trustThen out e w0] j(1) 4 Fulfils
          by (auto simp: w'_def)
        have "\<not> gate_open e v" using ns tn mono [OF s] Fulfils by (auto simp: started_def)
        then have c: "\<not> truthy v1" "\<not> truthy v2" "\<not> isExperimentOn e ''alp''"
          using v by (auto simp: gate_open_def)
        have "w' = settle P_trustThen (Fulfils JUndefined) (trust_body e v1 v2 w0)"
          by (simp only: w'_def j(1) 4 Fulfils v run_trust_job)
        then show ?thesis using idle0 c by (simp add: trust_body_closed steps_idle_settle)
      qed
    qed
  qed
  have g4: "joined w'" if st: "started e w'"
  proof (cases "started e w")
    case True
    then have jw: "all2 w P_join P_replaceUrlPromise P_clickUrlPromise"
        "link w P_join R_join (state w P_joinThen \<noteq> None)"
      using g(4) by (simp_all add: joined_def)
    have tn: "state w P_trustThen \<noteq> None" using True by (simp add: started_def)
    have nt: "job_callback j \<noteq> Some TrustResults"
    proof
      assume "job_callback j = Some TrustResults"
      then obtain v where "j = ReactionJob R_trust (Fulfils v)"
        using trust_callback [OF ok] by blast
      then have "state w P_trustThen = None"
        using trust_pending(2) [OF assms(1), of "Fulfils v"] jin by simp
      then show False using tn by simp
    qed
    have a: "all2 w' P_join P_replaceUrlPromise P_clickUrlPromise"
    proof (cases "job_settles j P_join")
      case True
      from job_ok_settles [OF ok this]
      obtain p r out where j: "j = ReactionJob r out" "(p, r) \<in> set (wiring e)"
          "reaction_target r = P_join" "state w p = Some out"
        by blast
      then have "(p = P_replaceUrlPromise \<and> r = AllElement P_join 0)
           \<or> (p = P_clickUrlPromise \<and> r = AllElement P_join 1)"
        using wiring_target(8) by blast
      then obtain i where i: "r = AllElement P_join i"
          "i = 0 \<and> state w P_replaceUrlPromise = Some out \<or> i = 1 \<and> state w P_clickUrlPromise = Some out"
        using j(4) by auto
      have m: "microtasks w = ReactionJob (AllElement P_join i) out # js"
        using assms(4) j(1) i(1) by simp
      show ?thesis
        unfolding w'_def w0_def j(1) i(1) by (rule all2_element [OF jw(1) m i(2)]) simp_all
    next
      case False
      show ?thesis
        unfolding w'_def w0_def
        by (rule all2_other_job [OF jw(1) assms(4) False]) (use nt in simp_all)
    qed
    have l: "link w' P_join R_join (state w' P_joinThen \<noteq> None)"
    proof (rule link_step [OF jw(2) assms(4) ev0])
      show "state w P_joinThen \<noteq> None \<Longrightarrow> state w' P_joinThen \<noteq> None" by (rule mono')
      fix out assume "j = ReactionJob R_join out"
      then show "state w' P_joinThen \<noteq> None"
        using then_settled [of "Some JoinResolve" "Some JoinSwallow" P_joinThen out e w0]
        by (cases out) (auto simp: w'_def)
    qed
    show ?thesis using a l by (simp add: joined_def)
  next
    case False
    from open_job [OF st False]
    obtain v1 v2 where j: "j = ReactionJob R_trust (Fulfils (JArr [v1, v2]))"
        "truthy v1 \<or> truthy v2 \<or> isExperimentOn e ''alp''"
      by blast
    have idle0: "state w0 P_join = None" using g(3) False by (simp add: steps_idle_def w0_def)
    have "w' = settle P_trustThen (Fulfils JUndefined) (trust_body e v1 v2 w0)"
      by (simp only: w'_def j(1) run_trust_job)
    then show ?thesis using joined_trust_body [OF idle0 j(2)] by simp
  qed
  have g5: "state w' P_promise \<noteq> None"
    if a: "state w' P_trustAll = Some (Fulfils r)" "\<not> gate_open e r" "state w' P_trustThen \<noteq> None"
    for r
  proof (cases "state w P_trustThen = None")
    case False
    then have "state w P_trustAll \<noteq> None" using trust_settled [OF assms(1) g(2)] by simp
    then have "state w P_trustAll = Some (Fulfils r)"
      using a(1) mono by (cases "state w P_trustAll") auto
    then have "state w P_promise \<noteq> None" using g(5) a(2) False by blast
    then show ?thesis by (rule mono')
  next
    case True
    then obtain out where j: "j = ReactionJob R_trust out" "state w P_trustAll = Some out"
      using tt a(3) by auto
    then have o: "out = Fulfils r" using mono [OF j(2)] a(1) by simp
    obtain v1 v2 where v: "r = JArr [v1, v2]"
      using all2_fulfilled [OF g(1), of r] j(2) o by auto
    have c: "\<not> truthy v1" "\<not> truthy v2" "\<not> isExperimentOn e ''alp''"
      using v a(2) by (auto simp: gate_open_def)
    have "w' = settle P_trustThen (Fulfils JUndefined) (trust_body e v1 v2 w0)"
      by (simp only: w'_def j(1) o v run_trust_job)
    then show ?thesis using c by (simp add: trust_body_closed)
  qed
  have np: "\<not> job_settles j P_promise"
  proof
    assume "job_settles j P_promise"
    from job_ok_settles [OF ok this]
    obtain p r where "(p, r) \<in> set (wiring e)" "reaction_target r = P_promise"
      by blast
    then show False using wiring_target(1) [of p r e] by simp
  qed
  have g6: "(\<exists>r. state w' P_trustAll = Some (Fulfils r) \<and> \<not> gate_open e r)
              \<or> (\<exists>r. state w' P_join = Some (Fulfils r))"
    if a: "state w' P_promise \<noteq> None"
  proof (cases "state w P_promise = None")
    case False
    then show ?thesis using g(6) mono by blast
  next
    case True
    have "job_callback j = Some TrustResults \<or> job_callback j = Some JoinResolve"
    proof (rule ccontr)
      assume "\<not> (job_callback j = Some TrustResults \<or> job_callback j = Some JoinResolve)"
      then have "state w' P_promise = state w0 P_promise"
        unfolding w'_def by (intro run_job_state) (use np in simp_all)
      then show False using a True st0 by simp
    qed
    then show ?thesis
    proof
      assume "job_callback j = Some TrustResults"
      then obtain v where j: "j = ReactionJob R_trust (Fulfils v)"
          "state w P_trustAll = Some (Fulfils v)"
        using trust_callback [OF ok] by blast
      obtain v1 v2 where v: "v = JArr [v1, v2]"
        using all2_fulfilled [OF g(1) j(2)] by auto
      have "\<not> gate_open e v"
      proof
        assume "gate_open e v"
        then have op: "truthy v1 \<or> truthy v2 \<or> isExperimentOn e ''alp''"
          using v by (simp add: gate_open_def)
        have "w' = settle P_trustThen (Fulfils JUndefined) (trust_body e v1 v2 w0)"
          by (simp only: w'_def j(1) v run_trust_job)
        then have "state w' P_promise = state w0 P_promise"
          using op by (simp add: trust_body_open_promise)
        then show False using a True st0 by simp
      qed
      then show ?thesis using mono [OF j(2)] by blast
    next
      assume "job_callback j = Some JoinResolve"
      then obtain v where "state w P_join = Some (Fulfils v)"
        using join_callback [OF ok] by blast
      then show ?thesis using mono by blast
    qed
  qed
  have g7: "state w' P_promise \<noteq> None"
    if a: "state w' P_joinThen \<noteq> None" "state w' P_join = Some (Fulfils r)" for r
  proof (cases "state w P_joinThen = None")
    case False
    then have "state w P_join \<noteq> None" using g(9) by simp
    then have "state w P_join = Some (Fulfils r)"
      using a(2) mono by (cases "state w P_join") auto
    then have "state w P_promise \<noteq> None" using g(7) False by blast
    then show ?thesis by (rule mono')
  next
    case True
    then obtain out where j: "j = ReactionJob R_join out" "state w P_join = Some out"
      using jt a(1) by auto
    then have "out = Fulfils r" using mono [OF j(2)] a(2) by simp
    then have "w' = settle P_joinThen (Fulfils JUndefined) (settle P_promise (Fulfils JUndefined) w0)"
      using j(1) by (simp add: w'_def)
    then show ?thesis by simp
  qed
  have g8: "state w' P_joinThen = None \<or> state w' P_joinThen = Some (Fulfils JUndefined)"
    using jt
  proof
    assume "state w' P_joinThen = state w P_joinThen"
    then show ?thesis using g(8) by simp
  next
    assume "\<exists>out. j = ReactionJob R_join out \<and> state w P_join = Some out"
    then obtain out where j: "j = ReactionJob R_join out" by blast
    have "state w0 P_joinThen = None \<or> state w0 P_joinThen = Some (Fulfils JUndefined)"
      using g(8) st0 by simp
    then show ?thesis using j by (cases out) (auto simp: w'_def)
  qed
  have g9: "state w' P_join \<noteq> None" if "state w' P_joinThen \<noteq> None"
    using jt
  proof
    assume "state w' P_joinThen = state w P_joinThen"
    then have "state w P_join \<noteq> None" using g(9) that by simp
    then show ?thesis by (rule mono')
  next
    assume "\<exists>out. j = ReactionJob R_join out \<and> state w P_join = Some out"
    then show ?thesis using mono' by auto
  qed
  have g10: "x = JError ''TrackImpressionPromise timeout''"
    if a: "state w' P_timeout = Some (Rejects x)" for x
  proof -
    from step [of P_timeout]
    consider "state w' P_timeout = state w P_timeout"
      | q r out where "j = ReactionJob r out" "(q, r) \<in> set (wiring e)"
          "reaction_target r = P_timeout" "state w q = Some out"
      by auto
    then show ?thesis
    proof cases
      case 1
      then show ?thesis using g(10) a by simp
    next
      case 2
      then have r: "q = P_promise" "r = Adopt P_timeout" using wiring_target(4) by blast+
      then have "out = Fulfils JUndefined" using 2(4) assms(2) by (auto simp: inv_session_def)
      then have "state w' P_timeout =
          (if state w P_timeout = None then Some (Fulfils JUndefined) else state w P_timeout)"
        using 2(1) r st0 by (simp add: w'_def)
      then show ?thesis using a g(10) by (auto split: if_splits)
    qed
  qed
  have "inv_gate e w'"
    unfolding inv_gate_def using g1 g2 g3 g4 g5 g6 g7 g8 g9 g10 by blast
  then show ?thesis by (simp add: w'_def w0_def)
qed


lemma occur_state:
  assumes "set (outstanding w) \<subseteq> external" and "timers w = [] \<or> timers w = [timer0]"
    and "p \<notin> external" and "p \<noteq> P_timeout"
  shows "state (occur ev w) p = state w p"
proof (cases ev)
  case (Settle q out)
  then show ?thesis using assms(1,3) by auto
next
  case TimerFire
  then show ?thesis using assms(4) by (simp add: fire_timers_unfold [OF assms(2)])
qed

lemma occur_all_values:
  "timers w = [] \<or> timers w = [timer0] \<Longrightarrow> all_values (occur ev w) = all_values w"
  by (cases ev) (simp_all add: fire_timers_unfold)

lemma occur_steps_idle:
  assumes "set (outstanding w) \<subseteq> external" and "timers w = [] \<or> timers w = [timer0]"
    and "steps_idle w"
  shows "steps_idle (occur ev w)"
proof (cases ev)
  case (Settle q out)
  show ?thesis
  proof (cases "q \<in> set (outstanding w)")
    case True
    then have "q \<in> external" using assms(1) by auto
    then have "q \<noteq> P_join" "q \<noteq> P_joinThen" "q \<noteq> P_replaceUrlPromise" "q \<noteq> P_clickUrlPromise"
      by (auto simp: external_def)
    then show ?thesis using Settle True assms(3) by (simp add: steps_idle_settle)
  next
    case False
    then show ?thesis using Settle assms(3) by simp
  qed
next
  case TimerFire
  then show ?thesis using assms(3) by (simp add: fire_timers_unfold [OF assms(2)] steps_idle_settle)
qed

lemma occur_timeout:
  assumes "set (outstanding w) \<subseteq> external" and "timers w = [] \<or> timers w = [timer0]"
    and "state (occur ev w) P_timeout = Some (Rejects x)"
  shows "state w P_timeout = Some (Rejects x) \<or> x = JError ''TrackImpressionPromise timeout''"
proof (cases ev)
  case (Settle q out)
  have "P_timeout \<notin> external" by (simp add: external_def)
  then show ?thesis using Settle assms(1,3) by (auto split: if_splits)
next
  case TimerFire
  then show ?thesis using assms(3) by (auto simp: fire_timers_unfold [OF assms(2)] split: if_splits)
qed

lemma inv_gate_occur:
  assumes "inv_core e w" and "inv_gate e w"
  shows "inv_gate e (occur ev w)"
proof -
  define w' where "w' = occur ev w"
  note g = inv_gateD [OF assms(2)]
  have os: "set (outstanding w) \<subseteq> external" and t: "timers w = [] \<or> timers w = [timer0]"
    using assms(1) by (simp_all add: inv_core_def)
  have ev: "evolves w w'" unfolding w'_def using t by (rule evolves_occur)
  have av: "all_values w' = all_values w" unfolding w'_def using t by (rule occur_all_values)
  have st: "state w' P_trustAll = state w P_trustAll" "state w' P_trustThen = state w P_trustThen"
    "state w' P_promise = state w P_promise" "state w' P_join = state w P_join"
    "state w' P_joinThen = state w P_joinThen"
    unfolding w'_def by (rule occur_state [OF os t]; simp add: external_def)+
  have sd: "started e w' = started e w" by (simp add: started_def st)
  have g1: "all2 w' P_trustAll P_isTrustedViewer P_isTrustedReferrer"
    using g(1) ev by (rule all2_evolves) (simp_all add: st av)
  have g2: "link w' P_trustAll R_trust (state w' P_trustThen \<noteq> None)"
    using g(2) ev by (rule link_evolves) (simp add: st)
  have g3: "steps_idle w'" if "\<not> started e w'"
    unfolding w'_def using os t by (rule occur_steps_idle) (use that sd g(3) in simp)
  have g4: "joined w'" if "started e w'"
  proof -
    have jw: "all2 w P_join P_replaceUrlPromise P_clickUrlPromise"
        "link w P_join R_join (state w P_joinThen \<noteq> None)"
      using g(4) that sd by (simp_all add: joined_def)
    have a: "all2 w' P_join P_replaceUrlPromise P_clickUrlPromise"
      using jw(1) ev by (rule all2_evolves) (simp_all add: st av)
    have l: "link w' P_join R_join (state w' P_joinThen \<noteq> None)"
      using jw(2) ev by (rule link_evolves) (simp add: st)
    show ?thesis using a l by (simp add: joined_def)
  qed
  have g10: "x = JError ''TrackImpressionPromise timeout''"
    if "state w' P_timeout = Some (Rejects x)" for x
    using occur_timeout [OF os t, of ev x] that g(10) by (auto simp: w'_def)
  have "inv_gate e w'"
    unfolding inv_gate_def st using g1 g2 [unfolded st] g3 g4 g(5-9) g10 by blast
  then show ?thesis by (simp add: w'_def)
qed

definition inv2 :: "env \<Rightarrow> world \<Rightarrow> bool" where
  "inv2 e w = (inv_core e w \<and> inv_session w \<and> inv_gate e w)"

lemma inv2_run: "inv2 e (run e loc evs)"
proof (rule run_preserves)
  show "inv2 e (maybeTrackImpression e (init loc))"
    by (simp add: inv2_def inv_core_init inv_session_init inv_gate_init)
  show "\<And>w j js. inv2 e w \<Longrightarrow> microtasks w = j # js \<Longrightarrow> inv2 e (run_job e j (w\<lparr>microtasks := js\<rparr>))"
    by (simp add: inv2_def inv_core_job inv_session_job inv_gate_job)
  show "\<And>w ev. inv2 e w \<Longrightarrow> inv2 e (occur ev w)"
    by (auto simp: inv2_def inv_core_occur intro: inv_session_occur inv_gate_occur)
qed

text \<open>A session at rest: the facts that the theorems about the trust check and the join use.\<close>

lemma session_at_rest:
  assumes "inv_session w" and "microtasks w = []" and "state w P_promise \<noteq> None"
  shows "state w P_promise = Some (Fulfils JUndefined)"
    and "\<exists>v. state w P_trackImpression = Some (Fulfils v)"
proof -
  show "state w P_promise = Some (Fulfils JUndefined)"
    using assms(1,3) by (auto simp: inv_session_def)
  have "link w P_promise (Adopt P_timeout) (state w P_timeout \<noteq> None)"
    using assms(1) by (simp add: inv_session_def)
  then have "state w P_timeout \<noteq> None" using assms(2,3) by (auto simp: link_def)
  moreover have "link w P_timeout R_catch (state w P_trackImpression \<noteq> None)"
    using assms(1) by (simp add: inv_session_def)
  ultimately have "state w P_trackImpression \<noteq> None" using assms(2) by (auto simp: link_def)
  then obtain out where out: "state w P_trackImpression = Some out" by auto
  moreover have "\<forall>x. state w P_trackImpression \<noteq> Some (Rejects x)"
    using assms(1) by (simp add: inv_session_def)
  ultimately show "\<exists>v. state w P_trackImpression = Some (Fulfils v)" by (cases out) auto
qed

lemma closed_gate_at_rest:
  assumes "inv2 e w" and "microtasks w = []"
    and "state w P_isTrustedViewer = Some (Fulfils v1)"
    and "state w P_isTrustedReferrer = Some (Fulfils v2)"
    and "\<not> truthy v1" and "\<not> truthy v2" and "\<not> isExperimentOn e ''alp''"
  shows "state w P_promise \<noteq> None" and "steps_idle w"
proof -
  have g: "inv_gate e w" using assms(1) by (simp add: inv2_def)
  note d = inv_gateD [OF g]
  have a: "state w P_trustAll = Some (Fulfils (JArr [v1, v2]))"
    using all2_quiescent(1) [OF d(1) assms(2,3,4)] .
  have c: "\<not> gate_open e (JArr [v1, v2])" using assms(5,6,7) by (simp add: gate_open_def)
  have "state w P_trustThen \<noteq> None" using d(2) a assms(2) by (simp add: link_def)
  then show "state w P_promise \<noteq> None" using d(5) [OF a c] by simp
  have "\<not> started e w" using a c by (simp add: started_def)
  then show "steps_idle w" by (rule d(3))
qed

text \<open>
  Claim C3. When \<^verbatim>\<open>isTrustedViewer()\<close> and \<^verbatim>\<open>isTrustedReferrer()\<close> have both been
  fulfilled with a false value and the experiment \<^verbatim>\<open>alp\<close> is off, then at the end of the
  turn the session is resolved: the promise of \<^verbatim>\<open>resolveImpression\<close> and the session
  promise are fulfilled; and neither step has run: apart from the two trust queries and
  the warning of the timeout nothing has been called, so no message to the viewer, no
  \<^verbatim>\<open>viewer.replaceUrl\<close> and no fetch, and both step promises are still unset.
\<close>

theorem untrusted_session_skips_steps:
  assumes "state (run e loc evs) P_isTrustedViewer = Some (Fulfils v1)"
    and "state (run e loc evs) P_isTrustedReferrer = Some (Fulfils v2)"
    and "\<not> truthy v1" and "\<not> truthy v2" and "\<not> isExperimentOn e ''alp''"
  shows "state (run e loc evs) P_promise = Some (Fulfils JUndefined)
    \<and> (\<exists>v. state (run e loc evs) P_trackImpression = Some (Fulfils v))
    \<and> set (log (run e loc evs)) \<subseteq> session_effects
    \<and> state (run e loc evs) P_replaceUrlPromise = None
    \<and> state (run e loc evs) P_clickUrlPromise = None"
proof -
  let ?w = "run e loc evs"
  have i: "inv2 e ?w" by (rule inv2_run)
  have q: "microtasks ?w = []" by (rule run_quiescent)
  have s: "inv_session ?w" using i by (simp add: inv2_def)
  have p: "state ?w P_promise \<noteq> None" and idle: "steps_idle ?w"
    using closed_gate_at_rest [OF i q assms] by simp_all
  show ?thesis
    using session_at_rest [OF s q p] idle by (simp add: steps_idle_def)
qed


theorem untrusted_session_skips_steps_witness:
  "state (run example_env example_location untrusted_events) P_isTrustedViewer
      = Some (Fulfils (JBool False))
   \<and> state (run example_env example_location untrusted_events) P_isTrustedReferrer
      = Some (Fulfils (JBool False))
   \<and> \<not> truthy (JBool False) \<and> \<not> isExperimentOn example_env ''alp''
   \<and> state (run example_env example_location untrusted_events) P_promise = Some (Fulfils JUndefined)
   \<and> (\<exists>v. state (run example_env example_location untrusted_events) P_trackImpression
            = Some (Fulfils v))
   \<and> log (run example_env example_location untrusted_events) = [IsTrustedViewer, IsTrustedReferrer]
   \<and> state (run example_env example_location untrusted_events) P_replaceUrlPromise = None
   \<and> state (run example_env example_location untrusted_events) P_clickUrlPromise = None"
  using untrusted_session_skips_steps [of example_env example_location untrusted_events
      "JBool False" "JBool False"]
  by (simp add: untrusted_run example_env_alp)








section \<open>The order of the click-tracking step\<close>

text \<open>
  What the click-tracking step does to the outside: clearing the fragment, asking the
  viewer for the first-visible signal, and requesting the click URL.
\<close>

fun click_effect :: "effect \<Rightarrow> bool" where
  "click_effect (SetLocationHash h) = True"
| "click_effect WhenFirstVisible = True"
| "click_effect (FetchJson u) = True"
| "click_effect x = False"

definition click_log :: "world \<Rightarrow> effect list" where
  "click_log w = filter click_effect (log w)"

text \<open>The URL that \<^verbatim>\<open>invoke\<close> requests for the click URL \<open>u\<close>.\<close>

definition fetch_url :: "env \<Rightarrow> string \<Rightarrow> string" where
  "fetch_url e u =
     (if localDev e \<and> \<not> test e then ''http://localhost:8000/impression-proxy?url='' @ u else u)"

definition is_visible :: "env \<Rightarrow> reaction \<Rightarrow> bool" where
  "is_visible e r = (r = R_visible (click_of e))"

definition waits :: "effect list set" where
  "waits = {[WhenFirstVisible], [SetLocationHash [], WhenFirstVisible]}"

text \<open>
  The step has not begun; or it waits for the first-visible signal, with the callback
  that will request the click URL attached or queued at most once; or the signal has
  been fulfilled and the request has been made, once, after the wait.
\<close>

definition click_ok :: "env \<Rightarrow> world \<Rightarrow> bool" where
  "click_ok e w =
     ((click_log w = [] \<and> tokens (is_visible e) w = 0)
      \<or> (click_log w \<in> waits \<and> tokens (is_visible e) w \<le> 1)
      \<or> ((\<exists>v. state w P_whenFirstVisible = Some (Fulfils v))
          \<and> (\<exists>p \<in> waits. click_log w = p @ [FetchJson (fetch_url e (click_of e))])
          \<and> tokens (is_visible e) w = 0))"

lemma click_log_simps [simp]:
  "click_log (settle p out w) = click_log w"
  "click_log (subscribe p r w) = click_log w"
  "click_log (enqueue j w) = click_log w"
  "click_log (w\<lparr>microtasks := js\<rparr>) = click_log w"
  "click_log (w\<lparr>all_values := a\<rparr>) = click_log w"
  "click_log (w\<lparr>outstanding := os\<rparr>) = click_log w"
  "click_log (w\<lparr>timers := ts\<rparr>) = click_log w"
  "click_log (resolve_with d res w) = click_log w"
  "click_log (viewer_replaceUrl e v w) = click_log w"
  "click_log (set_location_hash e h w) = click_log w @ [SetLocationHash h]"
  "click_log (history_replaceState e s t u w) = click_log w"
  "click_log (perform x w) = click_log w @ (if click_effect x then [x] else [])"
  "click_log (snd (external_call x q w)) = click_log w @ (if click_effect x then [x] else [])"
  by (simp_all add: click_log_def)

lemma click_log_apply_effects [simp]: "click_log (apply_effects e v w) = click_log w"
  by (simp add: apply_effects_def Let_def)

lemma steps_idle_click:
  assumes "steps_idle w"
  shows "click_log w = []" and "tokens (is_visible e) w = 0"
proof -
  have "\<forall>x \<in> set (log w). \<not> click_effect x"
    using assms by (auto simp: steps_idle_def session_effects_def)
  then show "click_log w = []" by (simp add: click_log_def filter_empty_conv)
  have r: "\<forall>(p, r) \<in> set (reactions w). \<not> is_visible e r"
    using assms by (auto simp: steps_idle_def session_reactions_def is_visible_def)
  have j: "\<forall>j \<in> set (microtasks w).
      \<not> (case j of ReactionJob r out \<Rightarrow> is_visible e r | ThenableJob q d \<Rightarrow> False)"
    using assms
    by (auto simp: steps_idle_def session_job_def session_reactions_def is_visible_def
        split: job.splits)
  show "tokens (is_visible e) w = 0"
    using r j by (auto simp: tokens_def filter_empty_conv)
qed

lemma handleReplaceUrl_click [simp]:
  "click_log (snd (handleReplaceUrl e w)) = click_log w"
  "tokens (is_visible e) (snd (handleReplaceUrl e w)) = tokens (is_visible e) w"
  by (simp_all add: handleReplaceUrl_unfold is_visible_def)

lemma handleClickUrl_click:
  "(click_log (snd (handleClickUrl e w)) = click_log w
      \<and> tokens (is_visible e) (snd (handleClickUrl e w)) = tokens (is_visible e) w)
   \<or> (\<exists>p \<in> waits. click_log (snd (handleClickUrl e w)) = click_log w @ p
      \<and> tokens (is_visible e) (snd (handleClickUrl e w)) = tokens (is_visible e) w + 1)"
  by (simp add: handleClickUrl_unfold is_visible_def waits_def)

lemma trust_body_click:
  "(click_log (trust_body e v1 v2 w) = click_log w
      \<and> tokens (is_visible e) (trust_body e v1 v2 w) = tokens (is_visible e) w)
   \<or> (\<exists>p \<in> waits. click_log (trust_body e v1 v2 w) = click_log w @ p
      \<and> tokens (is_visible e) (trust_body e v1 v2 w) = tokens (is_visible e) w + 1)"
proof (cases "truthy v1 \<or> truthy v2 \<or> isExperimentOn e ''alp''")
  case False
  then show ?thesis by (simp add: trust_body_closed)
next
  case True
  have v: "\<not> is_visible e R_join" "\<not> is_visible e (AllElement P_join i)" for i
    by (simp_all add: is_visible_def)
  show ?thesis
    using handleClickUrl_click [of e "snd (handleReplaceUrl e w)"]
    by (simp add: trust_body_open [OF True] v)
qed

lemma call_click:
  assumes "f \<noteq> TrustResults" and "\<And>u. f \<noteq> VisibleInvoke u"
  shows "click_log (snd (call e f v w)) = click_log w"
    and "tokens Q (snd (call e f v w)) = tokens Q w"
  using assms by (cases f; simp)+

lemma run_job_click:
  assumes "job_callback j \<noteq> Some TrustResults" and "\<And>u. job_callback j \<noteq> Some (VisibleInvoke u)"
  shows "click_log (run_job e j w) = click_log w"
    and "tokens (is_visible e) (run_job e j w) = tokens (is_visible e) w"
proof -
  have "click_log (run_job e j w) = click_log w
      \<and> tokens (is_visible e) (run_job e j w) = tokens (is_visible e) w"
  proof (cases j)
    case (ThenableJob q d)
    then show ?thesis by (simp add: is_visible_def)
  next
    case (ReactionJob r out)
    show ?thesis
    proof (cases r)
      case (Adopt d)
      then show ?thesis using ReactionJob by simp
    next
      case (AllElement d i)
      then show ?thesis
        using ReactionJob by (cases out) (simp_all add: Let_def split: option.splits)
    next
      case (Then f g d)
      have c: "click_log (snd (call e c v w)) = click_log w
          \<and> tokens (is_visible e) (snd (call e c v w)) = tokens (is_visible e) w"
        if "job_callback j = Some c" for c v
      proof -
        have "c \<noteq> TrustResults" "\<And>u. c \<noteq> VisibleInvoke u" using that assms by auto
        then show ?thesis using call_click [where f = c and e = e and v = v and w = w] by simp
      qed
      show ?thesis
        using ReactionJob Then c
        by (cases out; cases f; cases g) (simp_all add: split_beta)
    qed
  qed
  then show "click_log (run_job e j w) = click_log w"
    and "tokens (is_visible e) (run_job e j w) = tokens (is_visible e) w"
    by simp_all
qed

lemma click_ok_init: "click_ok e (maybeTrackImpression e (init loc))"
  by (simp add: click_ok_def maybeTrackImpression_unfold is_visible_def)
     (simp add: init_def click_log_def tokens_def)

lemma click_ok_occur:
  assumes "inv_core e w" and "click_ok e w"
  shows "click_ok e (occur ev w)"
proof -
  have t: "timers w = [] \<or> timers w = [timer0]" using assms(1) by (simp add: inv_core_def)
  have ev: "evolves w (occur ev w)" using t by (rule evolves_occur)
  have l: "click_log (occur ev w) = click_log w"
    by (cases ev) (simp_all add: fire_timers_unfold [OF t])
  have k: "tokens (is_visible e) (occur ev w) = tokens (is_visible e) w"
    by (cases ev) (simp_all add: fire_timers_unfold [OF t])
  have s: "\<And>v. state w P_whenFirstVisible = Some (Fulfils v) \<Longrightarrow>
      state (occur ev w) P_whenFirstVisible = Some (Fulfils v)"
    using evolves_state [OF ev] by simp
  show ?thesis using assms(2) s unfolding click_ok_def l k by blast
qed

lemma click_ok_job:
  assumes "inv_core e w" and "inv_gate e w" and "click_ok e w" and "microtasks w = j # js"
  shows "click_ok e (run_job e j (w\<lparr>microtasks := js\<rparr>))"
proof -
  define w0 where "w0 = w\<lparr>microtasks := js\<rparr>"
  define w' where "w' = run_job e j w0"
  note g = inv_gateD [OF assms(2)]
  have ok: "job_ok e w j"
    using wired_pop [of e w j js] assms(1,4) by (simp add: inv_core_def)
  have jin: "j \<in> set (microtasks w)" using assms(4) by simp
  have ev: "evolves w0 w'" by (simp add: w'_def)
  have mono: "\<And>p out. state w p = Some out \<Longrightarrow> state w' p = Some out"
    using evolves_state [OF ev] by (simp add: w0_def)
  have cl0: "click_log w0 = click_log w" by (simp add: w0_def)
  have pop: "tokens (is_visible e) w = tokens (is_visible e) w0
      + (case j of ReactionJob r out \<Rightarrow> if is_visible e r then 1 else 0 | ThenableJob q d \<Rightarrow> 0)"
    using tokens_pop [OF assms(4), of "is_visible e"] by (simp add: w0_def)
  consider (trust) "job_callback j = Some TrustResults"
    | (visible) u where "job_callback j = Some (VisibleInvoke u)"
    | (other) "job_callback j \<noteq> Some TrustResults" "\<And>u. job_callback j \<noteq> Some (VisibleInvoke u)"
    by blast
  then have "click_ok e w'"
  proof cases
    case trust
    obtain v where j: "j = ReactionJob R_trust (Fulfils v)" "state w P_trustAll = Some (Fulfils v)"
      using trust_callback [OF ok trust] by blast
    obtain v1 v2 where v: "v = JArr [v1, v2]"
      using all2_fulfilled [OF g(1) j(2)] by auto
    have "state w P_trustThen = None"
      using trust_pending(2) [OF assms(1), of "Fulfils v"] jin j(1) by simp
    then have "\<not> started e w" by (simp add: started_def)
    then have idle: "steps_idle w" by (rule g(3))
    have c0: "click_log w0 = []" "tokens (is_visible e) w0 = 0"
      using steps_idle_click(1) [OF idle] steps_idle_click(2) [OF idle, of e] cl0 pop j(1)
      by (simp_all add: is_visible_def)
    have w': "w' = settle P_trustThen (Fulfils JUndefined) (trust_body e v1 v2 w0)"
      by (simp only: w'_def j(1) v run_trust_job)
    have l: "click_log w' = click_log (trust_body e v1 v2 w0)"
      and k: "tokens (is_visible e) w' = tokens (is_visible e) (trust_body e v1 v2 w0)"
      by (simp_all add: w')
    show ?thesis
      unfolding click_ok_def l k using trust_body_click [of e v1 v2 w0] c0 by auto
  next
    case visible
    from job_ok_callbackE [OF ok visible]
    obtain p f g' d out where c: "j = ReactionJob (Then f g' d) out"
        "(p, Then f g' d) \<in> set (wiring e)" "state w p = Some out"
        "(\<exists>v. out = Fulfils v \<and> f = Some (VisibleInvoke u))
           \<or> (\<exists>x. out = Rejects x \<and> g' = Some (VisibleInvoke u))"
      by blast
    then have "f = Some (VisibleInvoke u) \<or> g' = Some (VisibleInvoke u)" by blast
    from wiring_callback(3) [OF c(2) this]
    have r: "p = P_whenFirstVisible" "Then f g' d = R_visible u" "u = click_of e" by simp_all
    then obtain v where out: "out = Fulfils v" using c(4) by auto
    have j: "j = ReactionJob (R_visible (click_of e)) (Fulfils v)" using c(1) r out by simp
    have s: "state w' P_whenFirstVisible = Some (Fulfils v)" using mono c(3) r(1) out by simp
    have "tokens (is_visible e) w = tokens (is_visible e) w0 + 1"
      using pop j by (simp add: is_visible_def)
    then have b: "click_log w \<in> waits" "tokens (is_visible e) w0 = 0"
      using assms(3) by (auto simp: click_ok_def)
    have w': "w' = resolve_with P_visibleThen (ReturnPromise P_invoke) (snd (invoke e (click_of e) w0))"
      by (simp add: w'_def j)
    have l: "click_log w' = click_log w @ [FetchJson (fetch_url e (click_of e))]"
      by (simp add: w' invoke_unfold fetch_url_def cl0)
    have k: "tokens (is_visible e) w' = 0"
      using b(2) by (simp add: w' invoke_unfold is_visible_def)
    show ?thesis unfolding click_ok_def using s l k b(1) by blast
  next
    case other
    have l: "click_log w' = click_log w"
      using run_job_click(1) [OF other, of e w0] cl0 by (simp add: w'_def)
    have k: "tokens (is_visible e) w' \<le> tokens (is_visible e) w"
      using run_job_click(2) [OF other, of e w0] pop by (simp add: w'_def)
    have s: "\<And>v. state w P_whenFirstVisible = Some (Fulfils v) \<Longrightarrow>
        state w' P_whenFirstVisible = Some (Fulfils v)"
      by (rule mono)
    have 1: "click_ok e w'" if "click_log w = []" "tokens (is_visible e) w = 0"
      using that l k by (simp add: click_ok_def)
    have 2: "click_ok e w'" if "click_log w \<in> waits" "tokens (is_visible e) w \<le> 1"
      using that l k by (simp add: click_ok_def)
    have 3: "click_ok e w'"
      if "\<exists>v. state w P_whenFirstVisible = Some (Fulfils v)"
        "\<exists>p \<in> waits. click_log w = p @ [FetchJson (fetch_url e (click_of e))]"
        "tokens (is_visible e) w = 0"
    proof -
      have "\<exists>v. state w' P_whenFirstVisible = Some (Fulfils v)" using that(1) s by blast
      moreover have "tokens (is_visible e) w' = 0" using that(3) k by simp
      ultimately show ?thesis unfolding click_ok_def l using that(2) by blast
    qed
    show ?thesis using assms(3) 1 2 3 unfolding click_ok_def [of e w] by blast
  qed
  then show ?thesis by (simp add: w'_def w0_def)
qed

definition inv3 :: "env \<Rightarrow> world \<Rightarrow> bool" where
  "inv3 e w = (inv2 e w \<and> click_ok e w)"

lemma inv2_job:
  "inv2 e w \<Longrightarrow> microtasks w = j # js \<Longrightarrow> inv2 e (run_job e j (w\<lparr>microtasks := js\<rparr>))"
  by (simp add: inv2_def inv_core_job inv_session_job inv_gate_job)

lemma inv2_occur: "inv2 e w \<Longrightarrow> inv2 e (occur ev w)"
  by (auto simp: inv2_def inv_core_occur intro: inv_session_occur inv_gate_occur)

lemma inv3_run: "inv3 e (run e loc evs)"
proof (rule run_preserves)
  show "inv3 e (maybeTrackImpression e (init loc))"
    by (simp add: inv3_def inv2_def inv_core_init inv_session_init inv_gate_init click_ok_init)
next
  fix w j js assume a: "inv3 e w" "microtasks w = j # js"
  have i: "inv2 e w" and c: "click_ok e w" using a(1) by (simp_all add: inv3_def)
  have "inv_core e w" and "inv_gate e w" using i by (simp_all add: inv2_def)
  then have "click_ok e (run_job e j (w\<lparr>microtasks := js\<rparr>))"
    using c a(2) by (rule click_ok_job)
  then show "inv3 e (run_job e j (w\<lparr>microtasks := js\<rparr>))"
    using inv2_job [OF i a(2)] by (simp add: inv3_def)
next
  fix w ev assume a: "inv3 e w"
  have i: "inv2 e w" and c: "click_ok e w" using a by (simp_all add: inv3_def)
  have "inv_core e w" using i by (simp add: inv2_def)
  then have "click_ok e (occur ev w)" using c by (rule click_ok_occur)
  then show "inv3 e (occur ev w)" using inv2_occur [OF i] by (simp add: inv3_def)
qed

text \<open>
  Claim C7. With a \<^verbatim>\<open>click\<close> parameter that begins with \<^verbatim>\<open>https://\<close>: when the location
  has a fragment, \<^verbatim>\<open>handleClickUrl\<close> clears it and then asks for the first-visible signal,
  both before it returns, and requests nothing; and in every session and at the end of
  every turn, what the click-tracking step has done is, in this order, the clearing of
  the fragment (if any), the wait for the first-visible signal, and the request of the
  click URL, each at most once, the request only after the wait and only when the signal
  has been fulfilled.
\<close>

theorem click_tracking_order:
  assumes "getParam e ''click'' = Some u" and "prefix ''https://'' u"
  shows "(truthy (JStr (hash (win_location w))) \<longrightarrow>
            log (snd (handleClickUrl e w)) = log w @ [SetLocationHash [], WhenFirstVisible]
            \<and> hash (win_location (snd (handleClickUrl e w))) = [])
     \<and> (click_log (run e loc evs)
           \<in> {[], [WhenFirstVisible], [SetLocationHash [], WhenFirstVisible]}
         \<or> (\<exists>v. state (run e loc evs) P_whenFirstVisible = Some (Fulfils v))
           \<and> click_log (run e loc evs)
               \<in> {[WhenFirstVisible, FetchJson (fetch_url e u)],
                   [SetLocationHash [], WhenFirstVisible, FetchJson (fetch_url e u)]})"
proof -
  have c: "click_of e = u" using assms(1) by (simp add: click_of_def)
  have n: "u \<noteq> []" using assms(2) by auto
  have 1: "log (snd (handleClickUrl e w)) = log w @ [SetLocationHash [], WhenFirstVisible]
            \<and> hash (win_location (snd (handleClickUrl e w))) = []"
    if "truthy (JStr (hash (win_location w)))"
    using that assms(2) n by (simp add: handleClickUrl_unfold c)
  have "click_ok e (run e loc evs)" using inv3_run [of e loc evs] by (simp add: inv3_def)
  then have 2: "click_log (run e loc evs)
           \<in> {[], [WhenFirstVisible], [SetLocationHash [], WhenFirstVisible]}
         \<or> (\<exists>v. state (run e loc evs) P_whenFirstVisible = Some (Fulfils v))
           \<and> click_log (run e loc evs)
               \<in> {[WhenFirstVisible, FetchJson (fetch_url e u)],
                   [SetLocationHash [], WhenFirstVisible, FetchJson (fetch_url e u)]}"
    unfolding click_ok_def c waits_def by auto
  show ?thesis using 1 2 by blast
qed


theorem click_tracking_order_witness:
  "getParam example_env ''click'' = Some ''https://ad.example/track''
   \<and> prefix ''https://'' ''https://ad.example/track''
   \<and> truthy (JStr (hash (win_location (init example_location))))
   \<and> log (snd (handleClickUrl example_env (init example_location)))
      = [SetLocationHash [], WhenFirstVisible]
   \<and> hash (win_location (snd (handleClickUrl example_env (init example_location)))) = []
   \<and> state (run example_env example_location failed_fetch_events) P_whenFirstVisible
      = Some (Fulfils JUndefined)
   \<and> log (run example_env example_location failed_fetch_events) =
       [IsTrustedViewer, IsTrustedReferrer, ViewerReplaceUrl (JStr ''http://x''),
        SetLocationHash [], WhenFirstVisible, FetchJson ''https://ad.example/track'']
   \<and> click_log (run example_env example_location failed_fetch_events)
      = [SetLocationHash [], WhenFirstVisible, FetchJson ''https://ad.example/track'']"
  using click_tracking_order [where e = example_env and u = "''https://ad.example/track''"
      and w = "init example_location" and loc = example_location and evs = failed_fetch_events]
  by (simp add: example_env_click example_location_init failed_fetch_log click_log_def fetch_url_def)


end
